theory Spec2Isabelle
  imports Main "HOL-Library.Sublist"
begin

section \<open>Configuration (automation.ts, lines 7--11)\<close>

text \<open>
  The process environment after \<^verbatim>\<open>dotenv.config()\<close>: a variable is either unset
  (\<open>None\<close>, JavaScript's \<^verbatim>\<open>undefined\<close>) or set to a string, possibly the empty one.
\<close>

type_synonym environment = "string \<Rightarrow> string option"

text \<open>
  JavaScript's \<^verbatim>\<open>v || d\<close> for \<^verbatim>\<open>v: string | undefined\<close>: the falsy values of that
  type are \<^verbatim>\<open>undefined\<close> and the empty string, and both select the default.
\<close>

definition or_default :: "string option \<Rightarrow> string \<Rightarrow> string" where
  "or_default v d = (case v of None \<Rightarrow> d | Some s \<Rightarrow> (if s = [] then d else s))"

text \<open>
  The five module-level \<^verbatim>\<open>const\<close> bindings. They are values: nothing in the state
  threaded through the run holds them, so no stage can change them.
\<close>

record config =
  CAMUNDA_URL :: string
  USERNAME :: string
  PASSWORD :: string
  PROCESS_NAME :: string
  REST_URL :: string

definition load_config :: "environment \<Rightarrow> config" where
  "load_config env =
     \<lparr>CAMUNDA_URL = or_default (env ''CAMUNDA_URL'') '''',
      USERNAME = or_default (env ''USERNAME'') '''',
      PASSWORD = or_default (env ''PASSWORD'') '''',
      PROCESS_NAME = or_default (env ''PROCESS_NAME'') ''Test Process'',
      REST_URL = or_default (env ''REST_URL'') ''https://api.example.com/data''\<rparr>"

section \<open>The browser as an external collaborator\<close>

text \<open>
  Every \<^verbatim>\<open>await\<close> of the script is a call into Playwright. The calls the script
  makes, with the arguments it passes; an element handle is named by the selector it
  was obtained with. The optional timeout of the two waits is \<open>None\<close> where the script
  passes no options.
\<close>

datatype prim =
    Launch bool
  | NewContext
  | NewPage
  | Goto string
  | Fill string string
  | Press string string
  | Click string
  | WaitForNavigation "nat option"
  | WaitForSelector string "nat option"
  | HandleFill string string
  | HandleClick string
  | HandleSelectOption string string
  | TextContent string
  | Close

text \<open>
  What an awaited promise does: it resolves (the value matters only for
  \<^verbatim>\<open>textContent\<close>, of type \<^verbatim>\<open>string | null\<close>), it rejects with an error carrying a
  message, or it never settles.
\<close>

datatype reply = Resolves "string option" | Rejects string | Hangs

datatype stage =
  Bootstrap | Login | NavigateToModeler | CreateProcess | RunProcessInstance | VerifyCompletion

text \<open>
  What a run leaves behind, in order: the calls with the browser's replies and the
  console lines. \<open>Enter\<close> and \<open>Leave\<close> are ghost events that mark where the orchestrator
  starts a stage and how the stage ended (\<open>Some m\<close>: it threw an error with message
  \<open>m\<close>); the script prints nothing for them.
\<close>

datatype event =
    Call prim reply
  | ConsoleLog string
  | ConsoleError "string list"
  | Enter stage
  | Leave stage "string option"

text \<open>
  The browser and the application behind it are not part of the script: they are a
  parameter, a function that answers each call and may depend on everything that has
  happened so far (the ghost events are in its argument too; a browser ignores them, and
  every theorem below holds whether it does or not). Writing to the console does not
  fail.
\<close>

type_synonym world = "event list \<Rightarrow> prim \<Rightarrow> reply"

text \<open>
  The state of a run: whether the variable \<^verbatim>\<open>browser\<close> of \<^verbatim>\<open>run\<close> has been assigned,
  and the events so far.
\<close>

record state =
  browser :: bool
  trace :: "event list"

definition initial :: state where
  "initial = \<lparr>browser = False, trace = []\<rparr>"

datatype 'a outcome = Returned 'a | Thrown string | Pending

type_synonym 'a action = "state \<Rightarrow> 'a outcome \<times> state"

definition emit :: "event \<Rightarrow> state \<Rightarrow> state" where
  "emit e st = st\<lparr>trace := trace st @ [e]\<rparr>"

definition settle :: "reply \<Rightarrow> string option outcome" where
  "settle r = (case r of Resolves v \<Rightarrow> Returned v | Rejects m \<Rightarrow> Thrown m | Hangs \<Rightarrow> Pending)"

definition call :: "world \<Rightarrow> prim \<Rightarrow> string option action" where
  "call w p st = (let r = w (trace st) p in (settle r, emit (Call p r) st))"

definition returns :: "'a \<Rightarrow> 'a action" where
  "returns x st = (Returned x, st)"

definition throws :: "string \<Rightarrow> 'a action" where
  "throws m st = (Thrown m, st)"

definition bind_action :: "'a action \<Rightarrow> ('a \<Rightarrow> 'b action) \<Rightarrow> 'b action" where
  "bind_action m f st =
     (case m st of
        (Returned x, st') \<Rightarrow> f x st'
      | (Thrown e, st') \<Rightarrow> (Thrown e, st')
      | (Pending, st') \<Rightarrow> (Pending, st'))"

text \<open>An awaited call whose value the script does not use.\<close>

definition perform :: "world \<Rightarrow> prim \<Rightarrow> unit action" where
  "perform w p = bind_action (call w p) (\<lambda>_. returns ())"

text \<open>A block of statements: each runs only if the ones before it returned.\<close>

fun steps :: "unit action list \<Rightarrow> unit action" where
  "steps [] = returns ()"
| "steps (m # ms) = bind_action m (\<lambda>_. steps ms)"

definition try_catch :: "'a action \<Rightarrow> (string \<Rightarrow> 'a action) \<Rightarrow> 'a action" where
  "try_catch m h st =
     (case m st of
        (Returned x, st') \<Rightarrow> (Returned x, st')
      | (Thrown e, st') \<Rightarrow> h e st'
      | (Pending, st') \<Rightarrow> (Pending, st'))"

text \<open>
  \<^verbatim>\<open>finally\<close>: the block runs after the protected part has returned or thrown; when
  the block itself throws, its error replaces the outcome of the protected part.
\<close>

definition finish :: "'a outcome \<Rightarrow> unit action \<Rightarrow> 'a action" where
  "finish r fin st =
     (case fin st of
        (Returned _, st') \<Rightarrow> (r, st')
      | (Thrown e, st') \<Rightarrow> (Thrown e, st')
      | (Pending, st') \<Rightarrow> (Pending, st'))"

definition try_finally :: "'a action \<Rightarrow> unit action \<Rightarrow> 'a action" where
  "try_finally m fin st =
     (case m st of
        (Returned x, st') \<Rightarrow> finish (Returned x) fin st'
      | (Thrown e, st') \<Rightarrow> finish (Thrown e) fin st'
      | (Pending, st') \<Rightarrow> (Pending, st'))"

definition console_log :: "string \<Rightarrow> unit action" where
  "console_log s st = (Returned (), emit (ConsoleLog s) st)"

definition console_error :: "string list \<Rightarrow> unit action" where
  "console_error args st = (Returned (), emit (ConsoleError args) st)"

section \<open>The five stages (automation.ts, lines 41--158)\<close>

definition login :: "config \<Rightarrow> world \<Rightarrow> string \<Rightarrow> string \<Rightarrow> unit action" where
  \<open>login cfg w username password =
     try_catch
       (steps
          [perform w (Goto (CAMUNDA_URL cfg @ ''/login'')),
           perform w (Fill ''input[name="username"]'' username),
           perform w (Press ''input[name="username"]'' ''Enter''),
           perform w (Fill ''input[name="password"]'' password),
           perform w (Press ''input[name="password"]'' ''Enter''),
           perform w (WaitForNavigation None),
           console_log ''Logged in successfully''])
       (\<lambda>error. throws (''Login failed: '' @ error))\<close>

definition navigateToModeler :: "config \<Rightarrow> world \<Rightarrow> unit action" where
  \<open>navigateToModeler cfg w =
     try_catch
       (steps
          [perform w (Goto (CAMUNDA_URL cfg)),
           perform w (WaitForSelector ''button >> text=Create process'' None),
           console_log ''Navigated to Web Modeler''])
       (\<lambda>error. throws (''Navigation to Web Modeler failed: '' @ error))\<close>

definition createProcess :: "world \<Rightarrow> string \<Rightarrow> string \<Rightarrow> unit action" where
  \<open>createProcess w processName restUrl =
     try_catch
       (steps
          [perform w (Click ''button >> text=Create process''),
           perform w (Fill ''input#process-name'' processName),
           perform w (Click ''button >> text=Create''),
           perform w (Click ''button >> text=Add Connector''),
           perform w (WaitForSelector ''input#rest-url'' (Some 5000)),
           perform w (HandleFill ''input#rest-url'' restUrl),
           perform w (Click ''button >> text=Save Connector''),
           perform w (Click ''button >> text=Save''),
           console_log (''Process "'' @ processName @ ''" created successfully'')])
       (\<lambda>error. throws (''Process creation failed: '' @ error))\<close>

definition runProcessInstance :: "config \<Rightarrow> world \<Rightarrow> string \<Rightarrow> unit action" where
  \<open>runProcessInstance cfg w processName =
     try_catch
       (steps
          [perform w (Goto (CAMUNDA_URL cfg @ ''/run'')),
           perform w (Click ''button >> text=Run instance''),
           perform w (Click ''button#operate-sidebar-toggle''),
           perform w (WaitForSelector ''a#operate-link'' None),
           perform w (HandleClick ''a#operate-link''),
           perform w (WaitForSelector ''select#process-name'' None),
           perform w (HandleSelectOption ''select#process-name'' processName),
           perform w (Click ''button >> text=Start instance''),
           console_log (''Process instance of "'' @ processName @ ''" started successfully'')])
       (\<lambda>error. throws (''Running process instance failed: '' @ error))\<close>

definition processRowSelector :: "string \<Rightarrow> string" where
  \<open>processRowSelector processName = ''tr[id="process-row-'' @ processName @ ''"]''\<close>

definition completionStatusCellSelector :: "string \<Rightarrow> string" where
  \<open>completionStatusCellSelector processName =
     processRowSelector processName @ '' td[id="completion-status"]''\<close>

definition completed_line :: "string \<Rightarrow> string" where
  \<open>completed_line processName =
     ''Process instance of "'' @ processName @ ''" completed successfully''\<close>

definition not_completed_line :: "string \<Rightarrow> string" where
  \<open>not_completed_line processName =
     ''Process instance of "'' @ processName @ ''" did not complete''\<close>

definition verifyCompletion :: "world \<Rightarrow> string \<Rightarrow> unit action" where
  \<open>verifyCompletion w processName =
     try_catch
       (bind_action
          (steps
             [perform w (Click ''button#operate-sidebar-toggle''),
              perform w (WaitForSelector ''a#operate-link'' None),
              perform w (HandleClick ''a#operate-link''),
              perform w (Fill ''input#process-search'' processName),
              perform w (Click ''button >> text=Search''),
              perform w (WaitForSelector (completionStatusCellSelector processName) None)])
          (\<lambda>_. bind_action (call w (TextContent (completionStatusCellSelector processName)))
             (\<lambda>completionStatus.
                if completionStatus = Some ''Completed''
                then console_log (completed_line processName)
                else console_log (not_completed_line processName))))
       (\<lambda>error. throws (''Verification of process completion failed: '' @ error))\<close>

section \<open>The orchestrator (automation.ts, lines 13--33)\<close>

text \<open>\<^verbatim>\<open>browser = await chromium.launch({ headless: false })\<close>\<close>

definition launch :: "world \<Rightarrow> unit action" where
  "launch w =
     bind_action (call w (Launch False)) (\<lambda>_ st. (Returned (), st\<lparr>browser := True\<rparr>))"

text \<open>A stage attempt between its two ghost events; a pending attempt is never left.\<close>

definition staged :: "stage \<Rightarrow> unit action \<Rightarrow> unit action" where
  "staged s m st =
     (case m (emit (Enter s) st) of
        (Returned x, st') \<Rightarrow> (Returned x, emit (Leave s None) st')
      | (Thrown e, st') \<Rightarrow> (Thrown e, emit (Leave s (Some e)) st')
      | (Pending, st') \<Rightarrow> (Pending, st'))"

definition release :: "world \<Rightarrow> unit action" where
  "release w st = (if browser st then perform w Close st else returns () st)"

definition run :: "config \<Rightarrow> world \<Rightarrow> unit action" where
  "run cfg w =
     try_finally
       (try_catch
          (steps
             [staged Bootstrap (steps [launch w, perform w NewContext, perform w NewPage]),
              staged Login (login cfg w (USERNAME cfg) (PASSWORD cfg)),
              staged NavigateToModeler (navigateToModeler cfg w),
              staged CreateProcess (createProcess w (PROCESS_NAME cfg) (REST_URL cfg)),
              staged RunProcessInstance (runProcessInstance cfg w (PROCESS_NAME cfg)),
              staged VerifyCompletion (verifyCompletion w (PROCESS_NAME cfg))])
          (\<lambda>error. console_error [''An error occurred:'', error]))
       (release w)"

section \<open>Observing a run\<close>

text \<open>What an action did from a state: how it ended, and the events it added.\<close>

definition emitted :: "state \<Rightarrow> state \<Rightarrow> event list" where
  "emitted st st' = drop (length (trace st)) (trace st')"

definition outcome_of :: "'a action \<Rightarrow> state \<Rightarrow> 'a outcome" where
  "outcome_of m st = fst (m st)"

definition events_of :: "'a action \<Rightarrow> state \<Rightarrow> event list" where
  "events_of m st = emitted st (snd (m st))"

definition calls :: "event list \<Rightarrow> prim list" where
  "calls evs = [p. Call p r \<leftarrow> evs]"

definition console_logs :: "event list \<Rightarrow> string list" where
  "console_logs evs = [s. ConsoleLog s \<leftarrow> evs]"

definition console_errors :: "event list \<Rightarrow> string list list" where
  "console_errors evs = [a. ConsoleError a \<leftarrow> evs]"

definition stages_entered :: "event list \<Rightarrow> stage list" where
  "stages_entered evs = [s. Enter s \<leftarrow> evs]"

definition stages_left :: "event list \<Rightarrow> stage list" where
  "stages_left evs = [s. Leave s x \<leftarrow> evs]"

text \<open>The stage attempts that threw, with the message of the error.\<close>

definition failures :: "event list \<Rightarrow> (stage \<times> string) list" where
  "failures evs = [(s, e). Leave s (Some e) \<leftarrow> evs]"

definition all_stages :: "stage list" where
  "all_stages =
     [Bootstrap, Login, NavigateToModeler, CreateProcess, RunProcessInstance, VerifyCompletion]"

text \<open>The session exists once \<^verbatim>\<open>chromium.launch\<close> has resolved.\<close>

definition launch_resolved :: "event \<Rightarrow> bool" where
  "launch_resolved e =
     (case e of
        Call p r \<Rightarrow>
          (case p of Launch h \<Rightarrow> (case r of Resolves v \<Rightarrow> True | _ \<Rightarrow> False) | _ \<Rightarrow> False)
      | _ \<Rightarrow> False)"

definition launched :: "event list \<Rightarrow> bool" where
  "launched evs = list_ex launch_resolved evs"

text \<open>A call that did not resolve, and the reply of the first such call of a trace.\<close>

definition failing :: "event \<Rightarrow> bool" where
  "failing e =
     (case e of Call p r \<Rightarrow> (case r of Resolves v \<Rightarrow> False | _ \<Rightarrow> True) | _ \<Rightarrow> False)"

definition blame :: "event list \<Rightarrow> reply option" where
  "blame evs = (case filter failing evs of Call p r # _ \<Rightarrow> Some r | _ \<Rightarrow> None)"

text \<open>
  What a stage with the prefix \<open>pre\<close> signals, given the reply of its first failing
  call: the rejection's message behind the prefix.
\<close>

definition signalled :: "string \<Rightarrow> reply option \<Rightarrow> unit outcome" where
  "signalled pre b =
     (case b of
        Some (Rejects m) \<Rightarrow> Thrown (pre @ m)
      | Some Hangs \<Rightarrow> Pending
      | _ \<Rightarrow> Returned ())"

definition release_outcome :: "reply \<Rightarrow> unit outcome" where
  "release_outcome rep =
     (case rep of Resolves v \<Rightarrow> Returned () | Rejects m \<Rightarrow> Thrown m | Hangs \<Rightarrow> Pending)"

text \<open>
  Line 160, \<^verbatim>\<open>run();\<close>: the promise of \<^verbatim>\<open>run\<close> is neither awaited nor given a handler,
  and the script never touches the exit status itself. Node then ends the process with
  status 0 once the promise has fulfilled, and with status 1 on a rejection that nothing
  handles (its default since version 15); while the promise is pending the process has
  not exited.
\<close>

definition exit_status :: "unit outcome \<Rightarrow> nat option" where
  "exit_status r = (case r of Returned x \<Rightarrow> Some 0 | Thrown m \<Rightarrow> Some 1 | Pending \<Rightarrow> None)"

text \<open>
  What Playwright promises of a wait that is given a bound, as a condition on the world.
  The page is described by the delay, in milliseconds, after which an element shows up
  (\<open>None\<close>: it never does). A wait with bound \<open>t\<close> resolves when the element is there
  within \<open>t\<close> and rejects otherwise; of a wait without a bound nothing is said.
\<close>

definition enforces_bounds :: "(event list \<Rightarrow> string \<Rightarrow> nat option) \<Rightarrow> world \<Rightarrow> bool" where
  "enforces_bounds page w =
     (\<forall>tr sel t.
        case page tr sel of
          Some d \<Rightarrow>
            if d \<le> t then (\<exists>v. w tr (WaitForSelector sel (Some t)) = Resolves v)
            else (\<exists>m. w tr (WaitForSelector sel (Some t)) = Rejects m)
        | None \<Rightarrow> (\<exists>m. w tr (WaitForSelector sel (Some t)) = Rejects m))"

text \<open>The element does not show up within \<open>t\<close>: never, or later than that.\<close>

definition absent_within :: "(event list \<Rightarrow> string \<Rightarrow> nat option) \<Rightarrow> string \<Rightarrow> nat \<Rightarrow> bool" where
  "absent_within page sel t = (\<forall>tr. case page tr sel of Some d \<Rightarrow> t < d | None \<Rightarrow> True)"

text \<open>Two worlds to run the script in: one that reports a status, one that fails a call.\<close>

definition reporting :: "string option \<Rightarrow> world" where
  "reporting v = (\<lambda>tr p. case p of TextContent s \<Rightarrow> Resolves v | _ \<Rightarrow> Resolves None)"

definition rejecting :: "prim \<Rightarrow> string \<Rightarrow> world" where
  "rejecting q m = (\<lambda>tr p. if p = q then Rejects m else Resolves None)"

text \<open>
  A browser over a page that enforces the bounds it is given and waits for ever where
  it is given none, and a world that fails two calls.
\<close>

definition playwright :: "(event list \<Rightarrow> string \<Rightarrow> nat option) \<Rightarrow> world" where
  "playwright page tr p =
     (case p of
        WaitForSelector sel bound \<Rightarrow>
          (case page tr sel of
             Some d \<Rightarrow>
               (case bound of
                  Some t \<Rightarrow> if d \<le> t then Resolves None else Rejects ''Timeout exceeded''
                | None \<Rightarrow> Resolves None)
           | None \<Rightarrow>
               (case bound of Some t \<Rightarrow> Rejects ''Timeout exceeded'' | None \<Rightarrow> Hangs))
      | _ \<Rightarrow> Resolves None)"

definition rejecting_two :: "prim \<Rightarrow> string \<Rightarrow> prim \<Rightarrow> string \<Rightarrow> world" where
  "rejecting_two q m q' m' =
     (\<lambda>tr p. if p = q then Rejects m else if p = q' then Rejects m' else Resolves None)"

section \<open>Invariants of actions\<close>

text \<open>
  The timeout discipline of the waits: only the wait for \<^verbatim>\<open>input#rest-url\<close> carries
  a bound, of 5000 ms.
\<close>

definition wait_bound_ok :: "prim \<Rightarrow> bool" where
  "wait_bound_ok p =
     (case p of
        WaitForNavigation t \<Rightarrow> t = None
      | WaitForSelector s t \<Rightarrow> t = (if s = ''input#rest-url'' then Some 5000 else None)
      | _ \<Rightarrow> True)"

definition stage_prim :: "prim \<Rightarrow> bool" where
  "stage_prim p = (case p of Launch h \<Rightarrow> False | Close \<Rightarrow> False | _ \<Rightarrow> wait_bound_ok p)"

definition stage_event :: "event \<Rightarrow> bool" where
  "stage_event e = (case e of Call p r \<Rightarrow> stage_prim p | ConsoleLog s \<Rightarrow> True | _ \<Rightarrow> False)"

definition silent_call :: "event \<Rightarrow> bool" where
  "silent_call e =
     (case e of Call p r \<Rightarrow> (case p of TextContent s \<Rightarrow> False | _ \<Rightarrow> True) | _ \<Rightarrow> False)"

definition unbounded_event :: "event \<Rightarrow> bool" where
  "unbounded_event e =
     (case e of Call p r \<Rightarrow> p \<noteq> WaitForSelector ''input#rest-url'' (Some 5000) | _ \<Rightarrow> True)"

definition inner :: "event \<Rightarrow> bool" where
  "inner e =
     (case e of Call p r \<Rightarrow> p \<noteq> Close \<and> wait_bound_ok p | ConsoleLog s \<Rightarrow> True | _ \<Rightarrow> False)"

text \<open>
  An outcome accounts for the events of a block when the block stopped at its first
  call that did not resolve, and ended the way that call did.
\<close>

definition accounts :: "'a outcome \<Rightarrow> event list \<Rightarrow> bool" where
  "accounts r evs =
     (case r of
        Returned x \<Rightarrow> \<not> list_ex failing evs
      | Thrown m \<Rightarrow> (\<exists>pre p. evs = pre @ [Call p (Rejects m)] \<and> \<not> list_ex failing pre)
      | Pending \<Rightarrow> (\<exists>pre p. evs = pre @ [Call p Hangs] \<and> \<not> list_ex failing pre))"

definition obeys :: "(event \<Rightarrow> bool) \<Rightarrow> 'a action \<Rightarrow> bool" where
  "obeys P m =
     (\<forall>st. case m st of (r, st') \<Rightarrow>
        browser st' = browser st \<and>
        (\<exists>evs. trace st' = trace st @ evs \<and> list_all P evs \<and> accounts r evs))"

definition wrapped :: "string \<Rightarrow> 'a outcome \<Rightarrow> 'a outcome" where
  "wrapped pre r = (case r of Thrown m \<Rightarrow> Thrown (pre @ m) | _ \<Rightarrow> r)"

definition attempt :: "(event \<Rightarrow> bool) \<Rightarrow> string \<Rightarrow> unit action \<Rightarrow> bool" where
  "attempt P pre f =
     (\<forall>st. case f st of (r, st') \<Rightarrow>
        browser st' = browser st \<and>
        (\<exists>evs r0. trace st' = trace st @ evs \<and> list_all P evs \<and> accounts r0 evs \<and>
           r = wrapped pre r0))"

text \<open>The calls an action issues are an initial segment of \<open>ps\<close>, all of it when it returns.\<close>

definition issues :: "prim list \<Rightarrow> 'a action \<Rightarrow> bool" where
  "issues ps m =
     (\<forall>st. case m st of (r, st') \<Rightarrow>
        (\<exists>evs. trace st' = trace st @ evs \<and>
           (case r of Returned x \<Rightarrow> calls evs = ps | _ \<Rightarrow> prefix (calls evs) ps)))"

definition block :: "unit action \<Rightarrow> bool" where
  "block m =
     (\<forall>st. case m st of (r, st') \<Rightarrow>
        (\<exists>evs. trace st' = trace st @ evs \<and> list_all inner evs \<and>
           browser st' = (browser st \<or> launched evs)))"

definition diagnostic :: "unit outcome \<Rightarrow> event list" where
  "diagnostic r = (case r of Thrown e \<Rightarrow> [ConsoleError [''An error occurred:'', e]] | _ \<Rightarrow> [])"

text \<open>
  The traces of the protected part of \<^verbatim>\<open>run\<close> over a list of stages: attempts that
  returned, one after the other, ended by the list's end, by an attempt that threw or by
  one that is pending.
\<close>

inductive body_trace :: "stage list \<Rightarrow> unit outcome \<Rightarrow> event list \<Rightarrow> bool" where
  body_done: "body_trace [] (Returned ()) []"
| body_next: "list_all inner evs \<Longrightarrow> body_trace ss r rest \<Longrightarrow>
     body_trace (s # ss) r (Enter s # evs @ Leave s None # rest)"
| body_fail: "list_all inner evs \<Longrightarrow>
     body_trace (s # ss) (Thrown e) (Enter s # evs @ [Leave s (Some e)])"
| body_hang: "list_all inner evs \<Longrightarrow> body_trace (s # ss) Pending (Enter s # evs)"

section \<open>Configuration fallback: the operator\<close>

lemma or_default_unset: "or_default None d = d"
  by (simp add: or_default_def)

lemma or_default_empty: "or_default (Some []) d = d"
  by (simp add: or_default_def)

lemma or_default_set: "s \<noteq> [] \<Longrightarrow> or_default (Some s) d = s"
  by (simp add: or_default_def)

section \<open>Blocks stop at their first failing call\<close>

text \<open>
  The outcome of a block built from calls, console lines and sequencing accounts for its
  events; a stage, which catches and re-throws behind its prefix, is an attempt.
\<close>

lemma accounts_append:
  "\<not> list_ex failing e1 \<Longrightarrow> accounts r e2 \<Longrightarrow> accounts r (e1 @ e2)"
  unfolding accounts_def
  by (cases r) (auto simp: list_ex_iff) 

lemma obeys_returns: "obeys P (returns x)"
  by (simp add: obeys_def returns_def accounts_def)

lemma obeys_console_log: "P (ConsoleLog s) \<Longrightarrow> obeys P (console_log s)"
  by (simp add: obeys_def console_log_def emit_def accounts_def failing_def)

lemma obeys_call:
  assumes "\<And>r. P (Call p r)"
  shows "obeys P (call w p)"
  unfolding obeys_def
proof
  fix st
  show "case call w p st of (r, st') \<Rightarrow>
        browser st' = browser st \<and>
        (\<exists>evs. trace st' = trace st @ evs \<and> list_all P evs \<and> accounts r evs)"
    using assms
    by (cases "w (trace st) p")
       (simp_all add: call_def settle_def emit_def accounts_def failing_def)
qed

lemma obeys_bind:
  assumes m: "obeys P m" and f: "\<And>x. obeys P (f x)"
  shows "obeys P (bind_action m f)"
  unfolding obeys_def
proof
  fix st
  obtain r st1 where r: "m st = (r, st1)" by (cases "m st")
  from m r obtain e1 where e1: "browser st1 = browser st" "trace st1 = trace st @ e1"
    "list_all P e1" "accounts r e1"
    unfolding obeys_def by (auto dest!: spec [of _ st])
  show "case bind_action m f st of (r, st') \<Rightarrow>
        browser st' = browser st \<and>
        (\<exists>evs. trace st' = trace st @ evs \<and> list_all P evs \<and> accounts r evs)"
  proof (cases r)
    case (Returned x)
    obtain r2 st2 where r2: "f x st1 = (r2, st2)" by (cases "f x st1")
    from f [of x] r2 obtain e2 where e2: "browser st2 = browser st1" "trace st2 = trace st1 @ e2"
      "list_all P e2" "accounts r2 e2"
      unfolding obeys_def by (auto dest!: spec [of _ st1])
    from e1 Returned have "\<not> list_ex failing e1" by (simp add: accounts_def)
    with e2 have "accounts r2 (e1 @ e2)" by (simp add: accounts_append)
    with e1 e2 r r2 Returned show ?thesis
      by (simp add: bind_action_def)
  next
    case (Thrown e)
    with e1 r show ?thesis by (auto simp: bind_action_def accounts_def)
  next
    case Pending
    with e1 r show ?thesis by (auto simp: bind_action_def accounts_def)
  qed
qed

lemma obeys_perform: "(\<And>r. P (Call p r)) \<Longrightarrow> obeys P (perform w p)"
  unfolding perform_def by (intro obeys_bind obeys_call obeys_returns)

lemma obeys_steps: "(\<And>m. m \<in> set ms \<Longrightarrow> obeys P m) \<Longrightarrow> obeys P (steps ms)"
  by (induction ms) (auto intro: obeys_returns obeys_bind)

lemma attempt_try_catch:
  assumes "obeys P m"
  shows "attempt P pre (try_catch m (\<lambda>e. throws (pre @ e)))"
  unfolding attempt_def
proof
  fix st
  obtain r st1 where r: "m st = (r, st1)" by (cases "m st")
  from assms r obtain e1 where e1: "browser st1 = browser st" "trace st1 = trace st @ e1"
    "list_all P e1" "accounts r e1"
    unfolding obeys_def by (auto dest!: spec [of _ st])
  then show "case try_catch m (\<lambda>e. throws (pre @ e)) st of (r, st') \<Rightarrow>
        browser st' = browser st \<and>
        (\<exists>evs r0. trace st' = trace st @ evs \<and> list_all P evs \<and> accounts r0 evs \<and>
           r = wrapped pre r0)"
    using r by (cases r) (auto simp: try_catch_def throws_def wrapped_def)
qed

lemma stage_event_simps:
  "stage_event (ConsoleLog s)"
  "stage_event (Call p r) = stage_prim p"
  by (simp_all add: stage_event_def)

lemma attempt_login: "attempt stage_event ''Login failed: '' (login cfg w u pw)"
  unfolding login_def
  by (intro attempt_try_catch obeys_steps)
     (auto intro!: obeys_perform obeys_console_log
           simp: stage_event_simps stage_prim_def wait_bound_ok_def)

lemma attempt_navigateToModeler:
  "attempt stage_event ''Navigation to Web Modeler failed: '' (navigateToModeler cfg w)"
  unfolding navigateToModeler_def
  by (intro attempt_try_catch obeys_steps)
     (auto intro!: obeys_perform obeys_console_log
           simp: stage_event_simps stage_prim_def wait_bound_ok_def)

lemma attempt_createProcess:
  "attempt stage_event ''Process creation failed: '' (createProcess w n u)"
  unfolding createProcess_def
  by (intro attempt_try_catch obeys_steps)
     (auto intro!: obeys_perform obeys_console_log
           simp: stage_event_simps stage_prim_def wait_bound_ok_def)

lemma attempt_runProcessInstance:
  "attempt stage_event ''Running process instance failed: '' (runProcessInstance cfg w n)"
  unfolding runProcessInstance_def
  by (intro attempt_try_catch obeys_steps)
     (auto intro!: obeys_perform obeys_console_log
           simp: stage_event_simps stage_prim_def wait_bound_ok_def)

lemma attempt_verifyCompletion:
  "attempt stage_event ''Verification of process completion failed: '' (verifyCompletion w n)"
  unfolding verifyCompletion_def
  by (intro attempt_try_catch obeys_bind obeys_steps obeys_call)
     (auto intro!: obeys_perform obeys_console_log
           simp: stage_event_simps stage_prim_def wait_bound_ok_def
                 completionStatusCellSelector_def processRowSelector_def)

section \<open>The outcome of a stage is its first failing call\<close>

lemma emitted_append: "trace st' = trace st @ evs \<Longrightarrow> emitted st st' = evs"
  by (simp add: emitted_def)

lemma blame_accounts:
  fixes r0 :: "unit outcome"
  shows "accounts r0 evs \<Longrightarrow> signalled pre (blame evs) = wrapped pre r0"
  unfolding accounts_def
  by (cases r0)
     (auto simp: signalled_def blame_def wrapped_def list_ex_iff failing_def filter_empty_conv
           split: list.splits event.splits reply.splits option.splits)

lemma attempt_signalled:
  assumes "attempt P pre f"
  shows "fst (f st) = signalled pre (blame (emitted st (snd (f st))))"
proof -
  obtain r st' where r: "f st = (r, st')" by (cases "f st")
  with assms obtain evs r0 where "trace st' = trace st @ evs" "accounts r0 evs" "r = wrapped pre r0"
    unfolding attempt_def by (auto dest!: spec [of _ st])
  then show ?thesis using r by (simp add: emitted_append blame_accounts)
qed

section \<open>The calls a block issues\<close>

lemma calls_simps:
  "calls [] = []"
  "calls (Call p r # evs) = p # calls evs"
  "calls (ConsoleLog s # evs) = calls evs"
  "calls (ConsoleError a # evs) = calls evs"
  "calls (Enter g # evs) = calls evs"
  "calls (Leave g x # evs) = calls evs"
  "calls (xs @ ys) = calls xs @ calls ys"
  by (simp_all add: calls_def)

lemma issues_returns: "issues [] (returns x)"
  by (simp add: issues_def returns_def calls_simps)

lemma call_cases:
  "call w p st =
     (case w (trace st) p of
        Resolves v \<Rightarrow> (Returned v, emit (Call p (Resolves v)) st)
      | Rejects m \<Rightarrow> (Thrown m, emit (Call p (Rejects m)) st)
      | Hangs \<Rightarrow> (Pending, emit (Call p Hangs) st))"
  by (simp add: call_def settle_def split: reply.splits)

lemma perform_cases:
  "perform w p st =
     (case w (trace st) p of
        Resolves v \<Rightarrow> (Returned (), emit (Call p (Resolves v)) st)
      | Rejects m \<Rightarrow> (Thrown m, emit (Call p (Rejects m)) st)
      | Hangs \<Rightarrow> (Pending, emit (Call p Hangs) st))"
  by (simp add: perform_def bind_action_def call_cases returns_def split: reply.splits)

lemma issues_perform: "issues [p] (perform w p)"
  by (simp add: issues_def perform_cases emit_def calls_simps split: reply.splits)

lemma issues_console_log: "issues [] (console_log s)"
  by (simp add: issues_def console_log_def emit_def calls_simps)

lemma issues_bind:
  assumes m: "issues ps m" and f: "\<And>x. issues qs (f x)"
  shows "issues (ps @ qs) (bind_action m f)"
  unfolding issues_def
proof
  fix st
  obtain r st1 where r: "m st = (r, st1)" by (cases "m st")
  from m r obtain e1 where e1: "trace st1 = trace st @ e1"
    "case r of Returned x \<Rightarrow> calls e1 = ps | _ \<Rightarrow> prefix (calls e1) ps"
    unfolding issues_def by (auto dest!: spec [of _ st])
  show "case bind_action m f st of (r, st') \<Rightarrow>
        (\<exists>evs. trace st' = trace st @ evs \<and>
           (case r of Returned x \<Rightarrow> calls evs = ps @ qs | _ \<Rightarrow> prefix (calls evs) (ps @ qs)))"
  proof (cases r)
    case (Returned x)
    obtain r2 st2 where r2: "f x st1 = (r2, st2)" by (cases "f x st1")
    from f [of x] r2 obtain e2 where e2: "trace st2 = trace st1 @ e2"
      "case r2 of Returned x \<Rightarrow> calls e2 = qs | _ \<Rightarrow> prefix (calls e2) qs"
      unfolding issues_def by (auto dest!: spec [of _ st1])
    with e1 r r2 Returned show ?thesis
      by (cases r2) (auto simp: bind_action_def calls_simps)
  next
    case (Thrown e)
    with e1 r show ?thesis by (auto simp: bind_action_def prefix_def)
  next
    case Pending
    with e1 r show ?thesis by (auto simp: bind_action_def prefix_def)
  qed
qed

lemma issues_nil: "issues [] (steps [])"
  by (simp add: issues_returns)

lemma issues_perform_step: "issues ps (steps ms) \<Longrightarrow> issues (p # ps) (steps (perform w p # ms))"
  using issues_bind [OF issues_perform, of ps "\<lambda>_. steps ms" p w] by simp

lemma issues_log_step: "issues ps (steps ms) \<Longrightarrow> issues ps (steps (console_log s # ms))"
  using issues_bind [OF issues_console_log, of ps "\<lambda>_. steps ms" s] by simp

lemma issues_try_catch:
  assumes "issues ps m"
  shows "issues ps (try_catch m (\<lambda>e. throws (g e)))"
  unfolding issues_def
proof
  fix st
  obtain r st1 where r: "m st = (r, st1)" by (cases "m st")
  with assms show "case try_catch m (\<lambda>e. throws (g e)) st of (r, st') \<Rightarrow>
        (\<exists>evs. trace st' = trace st @ evs \<and>
           (case r of Returned x \<Rightarrow> calls evs = ps | _ \<Rightarrow> prefix (calls evs) ps))"
    unfolding issues_def
    by (cases r) (auto simp: try_catch_def throws_def dest!: spec [of _ st])
qed

lemma issues_login:
  \<open>issues
     [Goto (CAMUNDA_URL cfg @ ''/login''),
      Fill ''input[name="username"]'' u,
      Press ''input[name="username"]'' ''Enter'',
      Fill ''input[name="password"]'' pw,
      Press ''input[name="password"]'' ''Enter'',
      WaitForNavigation None]
     (login cfg w u pw)\<close>
  unfolding login_def
  by (intro issues_try_catch issues_perform_step issues_log_step issues_nil)

section \<open>Reading the completion status\<close>

lemma silent_call_simps:
  "silent_call (Call p r) = (case p of TextContent s \<Rightarrow> False | _ \<Rightarrow> True)"
  "\<not> silent_call (ConsoleLog s)"
  by (simp_all add: silent_call_def)

lemma silent_no_text: "list_all silent_call evs \<Longrightarrow> Call (TextContent s) r \<notin> set evs"
  by (auto simp: list_all_iff silent_call_def)

lemma silent_no_logs: "list_all silent_call evs \<Longrightarrow> console_logs evs = []"
  by (induction evs) (auto simp: console_logs_def silent_call_def split: event.splits)

lemma verify_reads_status:
  assumes "Call (TextContent (completionStatusCellSelector n)) (Resolves v)
             \<in> set (emitted st (snd (verifyCompletion w n st)))"
  shows "fst (verifyCompletion w n st) = Returned () \<and>
         console_logs (emitted st (snd (verifyCompletion w n st))) =
           [if v = Some ''Completed'' then completed_line n else not_completed_line n] \<and>
         last (emitted st (snd (verifyCompletion w n st))) =
           ConsoleLog (if v = Some ''Completed'' then completed_line n else not_completed_line n)"
proof -
  define A where "A =
    steps
      [perform w (Click ''button#operate-sidebar-toggle''),
       perform w (WaitForSelector ''a#operate-link'' None),
       perform w (HandleClick ''a#operate-link''),
       perform w (Fill ''input#process-search'' n),
       perform w (Click ''button >> text=Search''),
       perform w (WaitForSelector (completionStatusCellSelector n) None)]"
  have A: "obeys silent_call A"
    unfolding A_def
    by (intro obeys_steps) (auto intro!: obeys_perform simp: silent_call_simps)
  obtain rA stA where rA: "A st = (rA, stA)" by (cases "A st")
  with A obtain eA where eA: "trace stA = trace st @ eA" "list_all silent_call eA"
    unfolding obeys_def by (auto dest!: spec [of _ st])
  note quiet = silent_no_text [OF eA(2)] silent_no_logs [OF eA(2)]
  show ?thesis
    using assms rA eA(1) quiet
    unfolding verifyCompletion_def A_def [symmetric]
    by (cases rA; cases "w (trace st @ eA) (TextContent (completionStatusCellSelector n))")
       (auto simp: try_catch_def bind_action_def call_cases console_log_def throws_def
          emit_def emitted_def console_logs_def)
qed

section \<open>Stage attempts inside the orchestrator\<close>

text \<open>
  A stage emits no ghost event, no diagnostic and no call that launches or closes the
  browser, and leaves the variable \<^verbatim>\<open>browser\<close> alone; the bootstrap block sets it
  exactly when the launch resolved.
\<close>

lemma launched_simps:
  "launched [] = False"
  "launched (Call p r # evs) = (launch_resolved (Call p r) \<or> launched evs)"
  "launched (ConsoleLog s # evs) = launched evs"
  "launched (ConsoleError a # evs) = launched evs"
  "launched (Enter g # evs) = launched evs"
  "launched (Leave g x # evs) = launched evs"
  "launched (xs @ ys) = (launched xs \<or> launched ys)"
  by (auto simp: launched_def launch_resolved_def)

lemma stage_prim_inner: "stage_prim p \<Longrightarrow> p \<noteq> Close \<and> wait_bound_ok p"
  by (cases p) (simp_all add: stage_prim_def)

lemma stage_prim_not_launch: "stage_prim p \<Longrightarrow> p \<noteq> Launch h"
  by (cases p) (simp_all add: stage_prim_def)

lemma stage_event_inner: "stage_event e \<Longrightarrow> inner e"
  by (cases e) (simp_all add: stage_event_def inner_def stage_prim_inner)

lemma stage_event_not_launch: "stage_event e \<Longrightarrow> \<not> launch_resolved e"
  by (cases e) (auto simp: stage_event_def launch_resolved_def dest: stage_prim_not_launch
      split: prim.splits)

lemma stage_events_inner: "list_all stage_event evs \<Longrightarrow> list_all inner evs"
  by (simp add: list_all_iff stage_event_inner)

lemma stage_events_not_launched: "list_all stage_event evs \<Longrightarrow> \<not> launched evs"
  by (simp add: list_all_iff list_ex_iff launched_def stage_event_not_launch)

lemma attempt_block:
  assumes "attempt stage_event pre f"
  shows "block f"
  unfolding block_def
proof
  fix st
  obtain r st' where r: "f st = (r, st')" by (cases "f st")
  with assms obtain evs where "browser st' = browser st" "trace st' = trace st @ evs"
    "list_all stage_event evs"
    unfolding attempt_def by (auto dest!: spec [of _ st])
  with r show "case f st of (r, st') \<Rightarrow>
        (\<exists>evs. trace st' = trace st @ evs \<and> list_all inner evs \<and>
           browser st' = (browser st \<or> launched evs))"
    by (auto simp: stage_events_inner stage_events_not_launched)
qed

lemma bootstrap_block: "block (steps [launch w, perform w NewContext, perform w NewPage])"
  unfolding block_def
  by (auto simp: launch_def bind_action_def call_cases perform_cases returns_def emit_def
      inner_def wait_bound_ok_def launched_simps launch_resolved_def split: reply.splits)

lemma blockE:
  assumes "block m"
  obtains r st' evs where "m st = (r, st')" "trace st' = trace st @ evs" "list_all inner evs"
    "browser st' = (browser st \<or> launched evs)"
proof -
  obtain r st' where r: "m st = (r, st')" by (cases "m st")
  from assms have "case m st of (r, st') \<Rightarrow>
        (\<exists>evs. trace st' = trace st @ evs \<and> list_all inner evs \<and>
           browser st' = (browser st \<or> launched evs))"
    unfolding block_def by (rule spec)
  with r have "\<exists>evs. trace st' = trace st @ evs \<and> list_all inner evs \<and>
           browser st' = (browser st \<or> launched evs)"
    by simp
  with r that show thesis by blast
qed

lemma staged_block:
  assumes "block m"
  shows "case staged s m st of (r, st') \<Rightarrow>
     (\<exists>evs. trace st' =
          trace st @ Enter s # evs @
            (case r of Returned x \<Rightarrow> [Leave s None] | Thrown e \<Rightarrow> [Leave s (Some e)]
             | Pending \<Rightarrow> []) \<and>
        list_all inner evs \<and> browser st' = (browser st \<or> launched evs))"
proof -
  from assms obtain r st1 evs where r: "m (emit (Enter s) st) = (r, st1)"
    and evs: "trace st1 = trace (emit (Enter s) st) @ evs" "list_all inner evs"
    "browser st1 = (browser (emit (Enter s) st) \<or> launched evs)"
    by (rule blockE)
  show ?thesis
  proof (cases r)
    case (Returned x)
    with r evs show ?thesis by (simp add: staged_def emit_def)
  next
    case (Thrown e)
    with r evs show ?thesis by (simp add: staged_def emit_def)
  next
    case Pending
    with r evs show ?thesis by (simp add: staged_def emit_def)
  qed
qed

lemma body_steps:
  assumes "\<And>s m. (s, m) \<in> set bs \<Longrightarrow> block m"
  shows "case steps (map (\<lambda>(s, m). staged s m) bs) st of (r, st') \<Rightarrow>
     (\<exists>evs. trace st' = trace st @ evs \<and> body_trace (map fst bs) r evs \<and>
        browser st' = (browser st \<or> launched evs))"
  using assms
proof (induction bs arbitrary: st)
  case Nil
  show ?case by (simp add: returns_def launched_simps body_done)
next
  case (Cons b bs)
  obtain s m where b: "b = (s, m)" by (cases b)
  with Cons.prems [of s m] have m: "block m" by simp
  obtain r st1 where r: "staged s m st = (r, st1)" by (cases "staged s m st")
  with staged_block [OF m, where s = s and st = st] have "\<exists>evs. trace st1 = trace st @ Enter s # evs @
       (case r of Returned x \<Rightarrow> [Leave s None] | Thrown e \<Rightarrow> [Leave s (Some e)] | Pending \<Rightarrow> []) \<and>
    list_all inner evs \<and> browser st1 = (browser st \<or> launched evs)"
    by simp
  then obtain evs where evs:
    "trace st1 = trace st @ Enter s # evs @
       (case r of Returned x \<Rightarrow> [Leave s None] | Thrown e \<Rightarrow> [Leave s (Some e)] | Pending \<Rightarrow> [])"
    "list_all inner evs" "browser st1 = (browser st \<or> launched evs)"
    by blast
  show ?case
  proof (cases r)
    case (Returned x)
    obtain r2 st2 where r2: "steps (map (\<lambda>(s, m). staged s m) bs) st1 = (r2, st2)"
      by (cases "steps (map (\<lambda>(s, m). staged s m) bs) st1")
    with Cons.IH [of st1] Cons.prems obtain rest where rest:
      "trace st2 = trace st1 @ rest" "body_trace (map fst bs) r2 rest"
      "browser st2 = (browser st1 \<or> launched rest)"
      by auto
    from evs(2) rest(2) have "body_trace (s # map fst bs) r2 (Enter s # evs @ Leave s None # rest)"
      by (rule body_next)
    with b r r2 Returned evs rest show ?thesis
      by (auto simp: bind_action_def launched_simps)
  next
    case (Thrown e)
    from evs(2) have "body_trace (s # map fst bs) (Thrown e) (Enter s # evs @ [Leave s (Some e)])"
      by (rule body_fail)
    with b r Thrown evs show ?thesis
      by (auto simp: bind_action_def launched_simps)
  next
    case Pending
    from evs(2) have "body_trace (s # map fst bs) Pending (Enter s # evs)"
      by (rule body_hang)
    with b r Pending evs show ?thesis
      by (auto simp: bind_action_def launched_simps)
  qed
qed

lemma run_body:
  "case steps
      [staged Bootstrap (steps [launch w, perform w NewContext, perform w NewPage]),
       staged Login (login cfg w (USERNAME cfg) (PASSWORD cfg)),
       staged NavigateToModeler (navigateToModeler cfg w),
       staged CreateProcess (createProcess w (PROCESS_NAME cfg) (REST_URL cfg)),
       staged RunProcessInstance (runProcessInstance cfg w (PROCESS_NAME cfg)),
       staged VerifyCompletion (verifyCompletion w (PROCESS_NAME cfg))] initial of
     (r, st') \<Rightarrow> body_trace all_stages r (trace st') \<and> browser st' = launched (trace st')"
proof -
  let ?bs = "[(Bootstrap, steps [launch w, perform w NewContext, perform w NewPage]),
       (Login, login cfg w (USERNAME cfg) (PASSWORD cfg)),
       (NavigateToModeler, navigateToModeler cfg w),
       (CreateProcess, createProcess w (PROCESS_NAME cfg) (REST_URL cfg)),
       (RunProcessInstance, runProcessInstance cfg w (PROCESS_NAME cfg)),
       (VerifyCompletion, verifyCompletion w (PROCESS_NAME cfg))]"
  have "\<And>s m. (s, m) \<in> set ?bs \<Longrightarrow> block m"
    using bootstrap_block attempt_block [OF attempt_login]
      attempt_block [OF attempt_navigateToModeler] attempt_block [OF attempt_createProcess]
      attempt_block [OF attempt_runProcessInstance] attempt_block [OF attempt_verifyCompletion]
    by auto
  from body_steps [of ?bs initial, OF this] show ?thesis
    by (auto simp: initial_def all_stages_def)
qed

lemma run_shape [case_names hung unlaunched released]:
  obtains
    (hung) body where "body_trace all_stages Pending body"
      "fst (run cfg w initial) = Pending" "trace (snd (run cfg w initial)) = body"
  | (unlaunched) r0 body where "body_trace all_stages r0 body" "r0 \<noteq> Pending"
      "\<not> launched body" "fst (run cfg w initial) = Returned ()"
      "trace (snd (run cfg w initial)) = body @ diagnostic r0"
  | (released) r0 body rep where "body_trace all_stages r0 body" "r0 \<noteq> Pending"
      "launched body" "fst (run cfg w initial) = release_outcome rep"
      "trace (snd (run cfg w initial)) = body @ diagnostic r0 @ [Call Close rep]"
proof -
  define B where "B = steps
      [staged Bootstrap (steps [launch w, perform w NewContext, perform w NewPage]),
       staged Login (login cfg w (USERNAME cfg) (PASSWORD cfg)),
       staged NavigateToModeler (navigateToModeler cfg w),
       staged CreateProcess (createProcess w (PROCESS_NAME cfg) (REST_URL cfg)),
       staged RunProcessInstance (runProcessInstance cfg w (PROCESS_NAME cfg)),
       staged VerifyCompletion (verifyCompletion w (PROCESS_NAME cfg))]"
  obtain r0 st0 where r0: "B initial = (r0, st0)" by (cases "B initial")
  with run_body [of w cfg] have body: "body_trace all_stages r0 (trace st0)"
    and br: "browser st0 = launched (trace st0)"
    by (auto simp: B_def)
  have run: "run cfg w = try_finally
       (try_catch B (\<lambda>error. console_error [''An error occurred:'', error])) (release w)"
    by (simp add: run_def B_def)
  show thesis
  proof (cases r0)
    case Pending
    with r0 body show ?thesis
      by (intro hung [of "trace st0"]) (auto simp: run try_finally_def try_catch_def)
  next
    case (Returned x)
    show ?thesis
    proof (cases "launched (trace st0)")
      case False
      with r0 body br Returned show ?thesis
        by (intro unlaunched [of r0 "trace st0"])
           (auto simp: run try_finally_def try_catch_def finish_def release_def returns_def
              diagnostic_def)
    next
      case True
      with r0 body br Returned show ?thesis
        by (intro released [of r0 "trace st0" "w (trace st0) Close"])
           (auto simp: run try_finally_def try_catch_def finish_def release_def perform_cases
              emit_def diagnostic_def release_outcome_def split: reply.splits)
    qed
  next
    case (Thrown e)
    show ?thesis
    proof (cases "launched (trace st0)")
      case False
      with r0 body br Thrown show ?thesis
        by (intro unlaunched [of r0 "trace st0"])
           (auto simp: run try_finally_def try_catch_def finish_def release_def returns_def
              diagnostic_def console_error_def emit_def)
    next
      case True
      with r0 body br Thrown show ?thesis
        by (intro released [of r0 "trace st0"
              "w (trace st0 @ [ConsoleError [''An error occurred:'', e]]) Close"])
           (auto simp: run try_finally_def try_catch_def finish_def release_def perform_cases
              emit_def diagnostic_def release_outcome_def console_error_def split: reply.splits)
    qed
  qed
qed

section \<open>Observations of the protected part\<close>

lemma stages_entered_simps:
  "stages_entered [] = []"
  "stages_entered (Call p r # evs) = stages_entered evs"
  "stages_entered (ConsoleLog l # evs) = stages_entered evs"
  "stages_entered (ConsoleError a # evs) = stages_entered evs"
  "stages_entered (Enter g # evs) = g # stages_entered evs"
  "stages_entered (Leave g x # evs) = stages_entered evs"
  "stages_entered (xs @ ys) = stages_entered xs @ stages_entered ys"
  by (simp_all add: stages_entered_def)

lemma stages_left_simps:
  "stages_left [] = []"
  "stages_left (Call p r # evs) = stages_left evs"
  "stages_left (ConsoleLog l # evs) = stages_left evs"
  "stages_left (ConsoleError a # evs) = stages_left evs"
  "stages_left (Enter g # evs) = stages_left evs"
  "stages_left (Leave g x # evs) = g # stages_left evs"
  "stages_left (xs @ ys) = stages_left xs @ stages_left ys"
  by (simp_all add: stages_left_def)

lemma failures_simps:
  "failures [] = []"
  "failures (Call p r # evs) = failures evs"
  "failures (ConsoleLog l # evs) = failures evs"
  "failures (ConsoleError a # evs) = failures evs"
  "failures (Enter g # evs) = failures evs"
  "failures (Leave g None # evs) = failures evs"
  "failures (Leave g (Some e) # evs) = (g, e) # failures evs"
  "failures (xs @ ys) = failures xs @ failures ys"
  by (simp_all add: failures_def)

lemma console_errors_simps:
  "console_errors [] = []"
  "console_errors (Call p r # evs) = console_errors evs"
  "console_errors (ConsoleLog l # evs) = console_errors evs"
  "console_errors (ConsoleError a # evs) = a # console_errors evs"
  "console_errors (Enter g # evs) = console_errors evs"
  "console_errors (Leave g x # evs) = console_errors evs"
  "console_errors (xs @ ys) = console_errors xs @ console_errors ys"
  by (simp_all add: console_errors_def)

lemmas observe = calls_simps stages_entered_simps stages_left_simps failures_simps
  console_errors_simps launched_simps

lemma inner_observe_cons:
  "inner e \<Longrightarrow> stages_entered (e # evs) = stages_entered evs"
  "inner e \<Longrightarrow> stages_left (e # evs) = stages_left evs"
  "inner e \<Longrightarrow> failures (e # evs) = failures evs"
  "inner e \<Longrightarrow> console_errors (e # evs) = console_errors evs"
  by (cases e; simp add: inner_def observe)+

lemma inner_calls:
  "inner e \<Longrightarrow> Close \<notin> set (calls [e]) \<and> list_all wait_bound_ok (calls [e])"
  by (cases e) (auto simp: inner_def observe)

lemma inner_observe:
  assumes "list_all inner evs"
  shows "stages_entered evs = []" "stages_left evs = []" "failures evs = []"
    "console_errors evs = []"
  using assms by (induction evs) (simp_all add: inner_observe_cons observe)

lemma inner_observe_calls:
  assumes "list_all inner evs"
  shows "Close \<notin> set (calls evs)" "list_all wait_bound_ok (calls evs)"
proof -
  have "Close \<notin> set (calls evs) \<and> list_all wait_bound_ok (calls evs)"
    using assms
  proof (induction evs)
    case Nil
    show ?case by (simp add: observe)
  next
    case (Cons e evs)
    then have "inner e" and rest: "Close \<notin> set (calls evs) \<and> list_all wait_bound_ok (calls evs)"
      by simp_all
    from inner_calls [OF \<open>inner e\<close>] rest
    have "Close \<notin> set (calls ([e] @ evs)) \<and> list_all wait_bound_ok (calls ([e] @ evs))"
      unfolding calls_simps(7) by simp
    then show ?case by simp
  qed
  then show "Close \<notin> set (calls evs)" "list_all wait_bound_ok (calls evs)" by simp_all
qed

lemma body_entered_prefix: "body_trace ss r evs \<Longrightarrow> prefix (stages_entered evs) ss"
  by (induction rule: body_trace.induct) (simp_all add: observe inner_observe)

lemma body_entered_first:
  "body_trace ss r evs \<Longrightarrow> ss \<noteq> [] \<Longrightarrow> stages_entered evs \<noteq> [] \<and> hd (stages_entered evs) = hd ss"
  by (induction rule: body_trace.induct) (simp_all add: observe inner_observe)

lemma body_entered_unless_returned:
  "body_trace ss r evs \<Longrightarrow> r \<noteq> Returned () \<Longrightarrow> stages_entered evs \<noteq> []"
  by (induction rule: body_trace.induct) (simp_all add: observe inner_observe)

lemma body_quiet:
  assumes "body_trace ss r evs"
  shows "console_errors evs = []" "Close \<notin> set (calls evs)" "list_all wait_bound_ok (calls evs)"
  using assms
  by (induction rule: body_trace.induct) (simp_all add: observe inner_observe inner_observe_calls)

lemma body_returned:
  "body_trace ss r evs \<Longrightarrow> r = Returned () \<Longrightarrow> stages_entered evs = ss"
  by (induction rule: body_trace.induct) (simp_all add: observe inner_observe)

lemma body_left:
  "body_trace ss r evs \<Longrightarrow> r \<noteq> Pending \<Longrightarrow> stages_left evs = stages_entered evs"
  by (induction rule: body_trace.induct) (simp_all add: observe inner_observe)

lemma body_failures:
  "body_trace ss r evs \<Longrightarrow>
     failures evs = (case r of Thrown e \<Rightarrow> [(last (stages_entered evs), e)] | _ \<Rightarrow> [])"
proof (induction rule: body_trace.induct)
  case (body_next evs ss r rest s)
  then show ?case
    using body_entered_unless_returned [of ss r rest]
    by (cases r) (simp_all add: observe inner_observe)
qed (simp_all add: observe inner_observe)

lemma body_thrown_last:
  "body_trace ss r evs \<Longrightarrow> r = Thrown e \<Longrightarrow>
     \<exists>pre. evs = pre @ [Leave (last (stages_entered evs)) (Some e)]"
proof (induction rule: body_trace.induct)
  case (body_next evs ss r rest s)
  then obtain pre where "rest = pre @ [Leave (last (stages_entered rest)) (Some e)]"
    by blast
  moreover from body_next have "stages_entered rest \<noteq> []"
    using body_entered_unless_returned [of ss r rest] by simp
  ultimately have "Enter s # evs @ Leave s None # rest =
      (Enter s # evs @ Leave s None # pre) @
        [Leave (last (stages_entered (Enter s # evs @ Leave s None # rest))) (Some e)]"
    using body_next.hyps(1) by (simp add: observe inner_observe)
  then show ?case by blast
next
  case (body_fail evs s ss e')
  then have "Enter s # evs @ [Leave s (Some e')] =
      (Enter s # evs) @
        [Leave (last (stages_entered (Enter s # evs @ [Leave s (Some e')]))) (Some e)]"
    by (simp add: observe inner_observe)
  then show ?case by blast
qed simp_all

section \<open>The shape of a whole run\<close>

lemma events_of_initial: "events_of m initial = trace (snd (m initial))"
  by (simp add: events_of_def emitted_def initial_def)

lemma run_shape' [case_names hung unlaunched released]:
  obtains
    (hung) body where "body_trace all_stages Pending body"
      "outcome_of (run cfg w) initial = Pending" "events_of (run cfg w) initial = body"
  | (unlaunched) r0 body where "body_trace all_stages r0 body" "r0 \<noteq> Pending"
      "\<not> launched body" "outcome_of (run cfg w) initial = Returned ()"
      "events_of (run cfg w) initial = body @ diagnostic r0"
  | (released) r0 body rep where "body_trace all_stages r0 body" "r0 \<noteq> Pending"
      "launched body" "outcome_of (run cfg w) initial = release_outcome rep"
      "events_of (run cfg w) initial = body @ diagnostic r0 @ [Call Close rep]"
  using run_shape [of cfg w] unfolding outcome_of_def events_of_initial by blast

lemma diagnostic_observe:
  "calls (diagnostic r) = []" "stages_entered (diagnostic r) = []"
  "stages_left (diagnostic r) = []" "failures (diagnostic r) = []"
  "launched (diagnostic r) = False"
  "console_errors (diagnostic r) = (case r of Thrown e \<Rightarrow> [[''An error occurred:'', e]] | _ \<Rightarrow> [])"
  by (cases r; simp add: diagnostic_def observe)+

lemma close_not_launch: "launch_resolved (Call Close rep) = False"
  by (simp add: launch_resolved_def)

lemma count_absent: "x \<notin> set xs \<Longrightarrow> count_list xs x = 0"
  by (simp add: count_list_0_iff)

lemmas body_facts = body_entered_prefix body_entered_first body_quiet body_returned body_left
  body_failures

lemma all_stages_first: "all_stages \<noteq> [] \<and> hd all_stages = Bootstrap \<and> distinct all_stages"
  by (simp add: all_stages_def)

lemma entered_distinct: "prefix xs all_stages \<Longrightarrow> distinct xs"
proof -
  assume "prefix xs all_stages"
  then obtain zs where "all_stages = xs @ zs" by (auto simp: prefix_def)
  moreover have "distinct all_stages" by (simp add: all_stages_def)
  ultimately have "distinct (xs @ zs)" by simp
  then show "distinct xs" by simp
qed

lemma call_in_calls: "Call p rep \<in> set evs \<Longrightarrow> p \<in> set (calls evs)"
proof (induction evs)
  case Nil
  then show ?case by simp
next
  case (Cons a evs)
  then show ?case by (cases a) (auto simp: observe)
qed

section \<open>Evaluation, and what the invariants give for a stage\<close>

text \<open>
  The equations that evaluate the script in a concrete world.
\<close>

lemmas evaluate = run_def login_def navigateToModeler_def createProcess_def
  runProcessInstance_def verifyCompletion_def launch_def release_def staged_def
  try_finally_def finish_def try_catch_def bind_action_def perform_cases call_cases
  console_log_def console_error_def returns_def throws_def emit_def initial_def
  outcome_of_def events_of_def emitted_def reporting_def rejecting_def load_config_def
  or_default_def completionStatusCellSelector_def processRowSelector_def
  completed_line_def not_completed_line_def

lemma attempt_outcome:
  assumes "attempt P pre f"
  shows "outcome_of f st = signalled pre (blame (events_of f st))"
  using attempt_signalled [OF assms, of st] by (simp add: outcome_of_def events_of_def)

lemma attempt_rejected:
  assumes f: "attempt P pre f" and mem: "Call p (Rejects m) \<in> set (events_of f st)"
  shows "outcome_of f st = Thrown (pre @ m) \<and> last (events_of f st) = Call p (Rejects m)"
proof -
  obtain r st' where r: "f st = (r, st')" by (cases "f st")
  with f obtain evs r0 where evs: "trace st' = trace st @ evs" "accounts r0 evs"
    "r = wrapped pre r0"
    unfolding attempt_def by (auto dest!: spec [of _ st])
  from r evs(1) have ev: "events_of f st = evs"
    by (simp add: events_of_def emitted_append)
  have fl: "failing (Call p (Rejects m))" by (simp add: failing_def)
  show ?thesis
  proof (cases r0)
    case (Returned x)
    with evs(2) mem ev fl show ?thesis by (auto simp: accounts_def list_ex_iff)
  next
    case (Thrown m')
    with evs(2) obtain pre' q where "evs = pre' @ [Call q (Rejects m')]" "\<not> list_ex failing pre'"
      by (auto simp: accounts_def)
    with mem ev fl have "evs = pre' @ [Call p (Rejects m)]" "m' = m"
      by (auto simp: list_ex_iff)
    with r evs(3) Thrown ev show ?thesis by (simp add: outcome_of_def wrapped_def)
  next
    case Pending
    with evs(2) obtain pre' q where "evs = pre' @ [Call q Hangs]" "\<not> list_ex failing pre'"
      by (auto simp: accounts_def)
    with mem ev fl show ?thesis by (auto simp: list_ex_iff)
  qed
qed

lemma issues_calls:
  assumes "issues ps f"
  shows "prefix (calls (events_of f st)) ps"
    and "outcome_of f st = Returned x \<Longrightarrow> calls (events_of f st) = ps"
proof -
  obtain r st' where r: "f st = (r, st')" by (cases "f st")
  with assms obtain evs where evs: "trace st' = trace st @ evs"
    "case r of Returned x \<Rightarrow> calls evs = ps | _ \<Rightarrow> prefix (calls evs) ps"
    unfolding issues_def by (auto dest!: spec [of _ st])
  from r evs(1) have ev: "events_of f st = evs"
    by (simp add: events_of_def emitted_append)
  from evs(2) ev show "prefix (calls (events_of f st)) ps"
    by (cases r) simp_all
  from evs(2) ev r show "outcome_of f st = Returned x \<Longrightarrow> calls (events_of f st) = ps"
    by (cases r) (simp_all add: outcome_of_def)
qed

lemma issues_createProcess:
  \<open>issues
     [Click ''button >> text=Create process'',
      Fill ''input#process-name'' n,
      Click ''button >> text=Create'',
      Click ''button >> text=Add Connector'',
      WaitForSelector ''input#rest-url'' (Some 5000),
      HandleFill ''input#rest-url'' u,
      Click ''button >> text=Save Connector'',
      Click ''button >> text=Save'']
     (createProcess w n u)\<close>
  unfolding createProcess_def
  by (intro issues_try_catch issues_perform_step issues_log_step issues_nil)

lemma run_waits: "list_all wait_bound_ok (calls (events_of (run cfg w) initial))"
proof (cases rule: run_shape' [of cfg w])
  case (hung body)
  with body_quiet(3) [OF hung(1)] show ?thesis by simp
next
  case (unlaunched r0 body)
  with body_quiet(3) [OF unlaunched(1)] show ?thesis
    by (simp add: observe diagnostic_observe)
next
  case (released r0 body rep)
  with body_quiet(3) [OF released(1)] show ?thesis
    by (simp add: observe diagnostic_observe wait_bound_ok_def)
qed

lemma lines_differ: "completed_line n \<noteq> not_completed_line n"
  by (simp add: completed_line_def not_completed_line_def)

lemma verify_status:
  assumes "Call (TextContent (completionStatusCellSelector n)) (Resolves v)
             \<in> set (events_of (verifyCompletion w n) st)"
  shows "outcome_of (verifyCompletion w n) st = Returned () \<and>
         console_logs (events_of (verifyCompletion w n) st) =
           [if v = Some ''Completed'' then completed_line n else not_completed_line n] \<and>
         last (events_of (verifyCompletion w n) st) =
           ConsoleLog (if v = Some ''Completed'' then completed_line n else not_completed_line n)"
  using verify_reads_status [of n v st w] assms
  unfolding outcome_of_def events_of_def by simp

section \<open>The bounded wait of createProcess\<close>

lemma bind_action_assoc:
  "bind_action (bind_action m f) g = bind_action m (\<lambda>x. bind_action (f x) g)"
  by (rule ext) (simp add: bind_action_def split: prod.splits outcome.splits)

lemma bind_action_returns: "bind_action (returns x) f = f x"
  by (rule ext) (simp add: bind_action_def returns_def)

lemma steps_append: "steps (ms @ ns) = bind_action (steps ms) (\<lambda>_. steps ns)"
  by (induction ms) (simp_all add: bind_action_returns bind_action_assoc)

lemma unbounded_calls:
  "list_all unbounded_event evs \<Longrightarrow>
     WaitForSelector ''input#rest-url'' (Some 5000) \<notin> set (calls evs)"
proof (induction evs)
  case Nil
  then show ?case by (simp add: observe)
next
  case (Cons e evs)
  then show ?case by (cases e) (auto simp: observe unbounded_event_def)
qed

lemma unbounded_events:
  "list_all unbounded_event evs \<Longrightarrow>
     Call (WaitForSelector ''input#rest-url'' (Some 5000)) r \<notin> set evs"
  using call_in_calls unbounded_calls by blast

lemma createProcess_wait_cases:
  fixes w n u st
  defines "wait \<equiv> WaitForSelector ''input#rest-url'' (Some 5000)"
  shows "(\<exists>eA. events_of (createProcess w n u) st = eA \<and> list_all unbounded_event eA) \<or>
    (\<exists>eA eR. events_of (createProcess w n u) st = eA @ Call wait (w (trace st @ eA) wait) # eR \<and>
       list_all unbounded_event eA \<and> list_all unbounded_event eR \<and>
       (\<forall>m. w (trace st @ eA) wait = Rejects m \<longrightarrow>
          eR = [] \<and> outcome_of (createProcess w n u) st = Thrown (''Process creation failed: '' @ m)))"
proof -
  define A where "A = steps
     [perform w (Click ''button >> text=Create process''),
      perform w (Fill ''input#process-name'' n),
      perform w (Click ''button >> text=Create''),
      perform w (Click ''button >> text=Add Connector'')]"
  define R where \<open>R = steps
     [perform w (HandleFill ''input#rest-url'' u),
      perform w (Click ''button >> text=Save Connector''),
      perform w (Click ''button >> text=Save''),
      console_log (''Process "'' @ n @ ''" created successfully'')]\<close>
  have A: "obeys unbounded_event A"
    unfolding A_def
    by (intro obeys_steps) (auto intro!: obeys_perform simp: unbounded_event_def)
  have R: "obeys unbounded_event R"
    unfolding R_def
    by (intro obeys_steps) (auto intro!: obeys_perform obeys_console_log simp: unbounded_event_def)
  have cp: "createProcess w n u =
      try_catch (bind_action A (\<lambda>_. bind_action (perform w wait) (\<lambda>_. R)))
        (\<lambda>error. throws (''Process creation failed: '' @ error))"
    by (simp add: createProcess_def A_def R_def wait_def bind_action_assoc bind_action_returns)
  obtain rA stA where rA: "A st = (rA, stA)" by (cases "A st")
  with A obtain eA where eA: "trace stA = trace st @ eA" "list_all unbounded_event eA"
    unfolding obeys_def by (auto dest!: spec [of _ st])
  show ?thesis
  proof (cases rA)
    case (Thrown e)
    with rA eA have "events_of (createProcess w n u) st = eA"
      by (simp add: cp events_of_def emitted_def try_catch_def bind_action_def throws_def)
    with eA(2) show ?thesis by blast
  next
    case Pending
    with rA eA have "events_of (createProcess w n u) st = eA"
      by (simp add: cp events_of_def emitted_def try_catch_def bind_action_def throws_def)
    with eA(2) show ?thesis by blast
  next
    case (Returned x)
    let ?st1 = "emit (Call wait (w (trace st @ eA) wait)) stA"
    obtain rR stR where rR: "R ?st1 = (rR, stR)" by (cases "R ?st1")
    with R obtain eR where eR: "trace stR = trace ?st1 @ eR" "list_all unbounded_event eR"
      unfolding obeys_def by (auto dest!: spec [of _ ?st1])
    show ?thesis
    proof (cases "w (trace st @ eA) wait")
      case (Resolves v)
      with rA rR eA eR Returned
      have "events_of (createProcess w n u) st = eA @ Call wait (w (trace st @ eA) wait) # eR"
        by (cases rR)
           (simp_all add: cp events_of_def emitted_def try_catch_def bind_action_def throws_def
              perform_cases emit_def)
      with eA(2) eR(2) Resolves show ?thesis
        by (intro disjI2 exI [of _ eA] exI [of _ eR]) simp
    next
      case (Rejects m)
      with rA eA Returned
      have "events_of (createProcess w n u) st = eA @ Call wait (w (trace st @ eA) wait) # []"
        and "outcome_of (createProcess w n u) st = Thrown (''Process creation failed: '' @ m)"
        by (simp_all add: cp events_of_def outcome_of_def emitted_def try_catch_def bind_action_def
            throws_def perform_cases emit_def)
      with eA(2) Rejects show ?thesis
        by (intro disjI2 exI [of _ eA] exI [of _ "[]"]) simp
    next
      case Hangs
      with rA eA Returned
      have "events_of (createProcess w n u) st = eA @ Call wait (w (trace st @ eA) wait) # []"
        by (simp_all add: cp events_of_def outcome_of_def emitted_def try_catch_def bind_action_def
            throws_def perform_cases emit_def)
      with eA(2) Hangs show ?thesis
        by (intro disjI2 exI [of _ eA] exI [of _ "[]"]) simp
    qed
  qed
qed

lemma enforces_settles:
  assumes "enforces_bounds page w"
  shows "w tr (WaitForSelector sel (Some t)) \<noteq> Hangs"
proof -
  from assms have "case page tr sel of
          Some d \<Rightarrow>
            if d \<le> t then (\<exists>v. w tr (WaitForSelector sel (Some t)) = Resolves v)
            else (\<exists>m. w tr (WaitForSelector sel (Some t)) = Rejects m)
        | None \<Rightarrow> (\<exists>m. w tr (WaitForSelector sel (Some t)) = Rejects m)"
    unfolding enforces_bounds_def by blast
  then show ?thesis
    by (cases "page tr sel") (auto split: if_splits)
qed

lemma enforces_rejects:
  assumes "enforces_bounds page w" and "absent_within page sel t"
  shows "\<exists>m. w tr (WaitForSelector sel (Some t)) = Rejects m"
proof -
  from assms(1) have "case page tr sel of
          Some d \<Rightarrow>
            if d \<le> t then (\<exists>v. w tr (WaitForSelector sel (Some t)) = Resolves v)
            else (\<exists>m. w tr (WaitForSelector sel (Some t)) = Rejects m)
        | None \<Rightarrow> (\<exists>m. w tr (WaitForSelector sel (Some t)) = Rejects m)"
    unfolding enforces_bounds_def by blast
  moreover from assms(2) have "case page tr sel of Some d \<Rightarrow> t < d | None \<Rightarrow> True"
    unfolding absent_within_def by blast
  ultimately show ?thesis
    by (cases "page tr sel") (auto split: if_splits)
qed

lemma playwright_enforces: "enforces_bounds page (playwright page)"
  by (simp add: enforces_bounds_def playwright_def split: option.splits)

lemma createProcess_wait_settles:
  assumes "enforces_bounds page w"
  shows "Call (WaitForSelector ''input#rest-url'' (Some 5000)) Hangs
           \<notin> set (events_of (createProcess w n u) st)"
  using createProcess_wait_cases [of w n u st]
proof (elim disjE exE conjE)
  fix eA
  assume "events_of (createProcess w n u) st = eA" "list_all unbounded_event eA"
  then show ?thesis by (simp add: unbounded_events)
next
  fix eA eR
  assume "events_of (createProcess w n u) st =
      eA @ Call (WaitForSelector ''input#rest-url'' (Some 5000))
        (w (trace st @ eA) (WaitForSelector ''input#rest-url'' (Some 5000))) # eR"
    "list_all unbounded_event eA" "list_all unbounded_event eR"
  with enforces_settles [OF assms, of "trace st @ eA" "''input#rest-url''" 5000]
  show ?thesis by (simp add: unbounded_events)
qed

lemma createProcess_wait_times_out:
  assumes "enforces_bounds page w" and "absent_within page ''input#rest-url'' 5000"
    and issued: "WaitForSelector ''input#rest-url'' (Some 5000)
      \<in> set (calls (events_of (createProcess w n u) st))"
  shows "\<exists>m. outcome_of (createProcess w n u) st = Thrown (''Process creation failed: '' @ m) \<and>
     last (events_of (createProcess w n u) st) =
       Call (WaitForSelector ''input#rest-url'' (Some 5000)) (Rejects m)"
  using createProcess_wait_cases [of w n u st]
proof (elim disjE exE conjE)
  fix eA
  assume "events_of (createProcess w n u) st = eA" "list_all unbounded_event eA"
  with issued show ?thesis by (simp add: unbounded_calls)
next
  fix eA eR
  assume ev: "events_of (createProcess w n u) st =
      eA @ Call (WaitForSelector ''input#rest-url'' (Some 5000))
        (w (trace st @ eA) (WaitForSelector ''input#rest-url'' (Some 5000))) # eR"
    and rej: "\<forall>m. w (trace st @ eA) (WaitForSelector ''input#rest-url'' (Some 5000)) = Rejects m \<longrightarrow>
       eR = [] \<and> outcome_of (createProcess w n u) st = Thrown (''Process creation failed: '' @ m)"
  from enforces_rejects [OF assms(1,2), of "trace st @ eA"] obtain m where
    m: "w (trace st @ eA) (WaitForSelector ''input#rest-url'' (Some 5000)) = Rejects m"
    by blast
  with rej have "eR = []"
    "outcome_of (createProcess w n u) st = Thrown (''Process creation failed: '' @ m)"
    by simp_all
  with ev m show ?thesis by simp
qed

section \<open>The claims\<close>

text \<open>
  Claim C4. Each of the five settings, when its environment variable is unset, resolves
  to its literal default: the empty string for \<^verbatim>\<open>CAMUNDA_URL\<close>, \<^verbatim>\<open>USERNAME\<close> and
  \<^verbatim>\<open>PASSWORD\<close>, \<^verbatim>\<open>Test Process\<close> for \<^verbatim>\<open>PROCESS_NAME\<close>, and
  \<^verbatim>\<open>https://api.example.com/data\<close> for \<^verbatim>\<open>REST_URL\<close>. The configuration is one
  value computed from the environment; the run takes it as a parameter and has no
  operation that updates it.
\<close>

theorem config_fallback_unset:
  "(env ''CAMUNDA_URL'' = None \<longrightarrow> CAMUNDA_URL (load_config env) = '''') \<and>
   (env ''USERNAME'' = None \<longrightarrow> USERNAME (load_config env) = '''') \<and>
   (env ''PASSWORD'' = None \<longrightarrow> PASSWORD (load_config env) = '''') \<and>
   (env ''PROCESS_NAME'' = None \<longrightarrow> PROCESS_NAME (load_config env) = ''Test Process'') \<and>
   (env ''REST_URL'' = None \<longrightarrow>
      REST_URL (load_config env) = ''https://api.example.com/data'')"
  by (simp add: load_config_def or_default_unset)

theorem config_fallback_unset_witness:
  "load_config (\<lambda>k. None) =
     \<lparr>CAMUNDA_URL = '''', USERNAME = '''', PASSWORD = '''',
      PROCESS_NAME = ''Test Process'', REST_URL = ''https://api.example.com/data''\<rparr>"
  using config_fallback_unset [of "\<lambda>k. None"]
  by (cases "load_config (\<lambda>k. None)") simp

text \<open>
  Claim C8. A variable that is set to the empty string resolves to the default as well,
  because \<^verbatim>\<open>||\<close> tests truthiness, not definedness: \<^verbatim>\<open>PROCESS_NAME\<close> set to
  the empty string gives \<^verbatim>\<open>Test Process\<close>, \<^verbatim>\<open>REST_URL\<close> set to the empty string
  gives the example URL, and the three settings whose default is the empty string stay
  empty.
\<close>

theorem config_fallback_empty:
  "(env ''CAMUNDA_URL'' = Some '''' \<longrightarrow> CAMUNDA_URL (load_config env) = '''') \<and>
   (env ''USERNAME'' = Some '''' \<longrightarrow> USERNAME (load_config env) = '''') \<and>
   (env ''PASSWORD'' = Some '''' \<longrightarrow> PASSWORD (load_config env) = '''') \<and>
   (env ''PROCESS_NAME'' = Some '''' \<longrightarrow> PROCESS_NAME (load_config env) = ''Test Process'') \<and>
   (env ''REST_URL'' = Some '''' \<longrightarrow>
      REST_URL (load_config env) = ''https://api.example.com/data'')"
  by (simp add: load_config_def or_default_empty)

theorem config_fallback_empty_witness:
  "load_config (\<lambda>k. Some '''') =
     \<lparr>CAMUNDA_URL = '''', USERNAME = '''', PASSWORD = '''',
      PROCESS_NAME = ''Test Process'', REST_URL = ''https://api.example.com/data''\<rparr>"
  using config_fallback_empty [of "\<lambda>k. Some ''''"]
  by (cases "load_config (\<lambda>k. Some '''')") simp

text \<open>
  Claim C2. Each of the five stage functions ends the way its first call that did not
  resolve ended: when that call rejected with message \<open>M\<close>, the stage throws an error
  whose message is the stage's fixed prefix followed by \<open>M\<close> (a rejection \<open>timeout\<close> in
  \<open>login\<close> gives \<open>Login failed: timeout\<close>). Stated twice: the outcome is one function
  of the failing call's reply, whichever call it was, so the stage makes no other
  transformation and no distinction among the causes; and a call that rejected with
  \<open>M\<close> anywhere in the stage makes the stage throw the prefix followed by \<open>M\<close>.
\<close>

theorem stage_error_wrapping:
  "(outcome_of (login cfg w u pw) st =
      signalled ''Login failed: '' (blame (events_of (login cfg w u pw) st)) \<and>
    (\<forall>p M. Call p (Rejects M) \<in> set (events_of (login cfg w u pw) st) \<longrightarrow>
       outcome_of (login cfg w u pw) st = Thrown (''Login failed: '' @ M))) \<and>
   (outcome_of (navigateToModeler cfg w) st =
      signalled ''Navigation to Web Modeler failed: ''
        (blame (events_of (navigateToModeler cfg w) st)) \<and>
    (\<forall>p M. Call p (Rejects M) \<in> set (events_of (navigateToModeler cfg w) st) \<longrightarrow>
       outcome_of (navigateToModeler cfg w) st =
         Thrown (''Navigation to Web Modeler failed: '' @ M))) \<and>
   (outcome_of (createProcess w n url) st =
      signalled ''Process creation failed: '' (blame (events_of (createProcess w n url) st)) \<and>
    (\<forall>p M. Call p (Rejects M) \<in> set (events_of (createProcess w n url) st) \<longrightarrow>
       outcome_of (createProcess w n url) st = Thrown (''Process creation failed: '' @ M))) \<and>
   (outcome_of (runProcessInstance cfg w n) st =
      signalled ''Running process instance failed: ''
        (blame (events_of (runProcessInstance cfg w n) st)) \<and>
    (\<forall>p M. Call p (Rejects M) \<in> set (events_of (runProcessInstance cfg w n) st) \<longrightarrow>
       outcome_of (runProcessInstance cfg w n) st =
         Thrown (''Running process instance failed: '' @ M))) \<and>
   (outcome_of (verifyCompletion w n) st =
      signalled ''Verification of process completion failed: ''
        (blame (events_of (verifyCompletion w n) st)) \<and>
    (\<forall>p M. Call p (Rejects M) \<in> set (events_of (verifyCompletion w n) st) \<longrightarrow>
       outcome_of (verifyCompletion w n) st =
         Thrown (''Verification of process completion failed: '' @ M)))"
proof -
  have k: "outcome_of f st = signalled pre (blame (events_of f st)) \<and>
      (\<forall>p M. Call p (Rejects M) \<in> set (events_of f st) \<longrightarrow>
         outcome_of f st = Thrown (pre @ M))"
    if "attempt stage_event pre f" for pre f
    using attempt_outcome [OF that] attempt_rejected [OF that] by blast
  show ?thesis
    by (rule conjI [OF k [OF attempt_login] conjI [OF k [OF attempt_navigateToModeler]
          conjI [OF k [OF attempt_createProcess] conjI [OF k [OF attempt_runProcessInstance]
          k [OF attempt_verifyCompletion]]]]])
qed

theorem stage_error_wrapping_witness:
  "Call (WaitForNavigation None) (Rejects ''timeout'') \<in> set (events_of
       (login (load_config (\<lambda>k. None))
          (rejecting (WaitForNavigation None) ''timeout'') '''' '''') initial) \<and>
   blame (events_of (login (load_config (\<lambda>k. None))
       (rejecting (WaitForNavigation None) ''timeout'') '''' '''') initial) =
     Some (Rejects ''timeout'') \<and>
   outcome_of (login (load_config (\<lambda>k. None))
       (rejecting (WaitForNavigation None) ''timeout'') '''' '''') initial =
     Thrown ''Login failed: timeout''"
proof -
  have m: "Call (WaitForNavigation None) (Rejects ''timeout'') \<in> set (events_of
       (login (load_config (\<lambda>k. None))
          (rejecting (WaitForNavigation None) ''timeout'') '''' '''') initial)"
    by (simp add: evaluate)
  have b: "blame (events_of (login (load_config (\<lambda>k. None))
       (rejecting (WaitForNavigation None) ''timeout'') '''' '''') initial) =
     Some (Rejects ''timeout'')"
    by (simp add: evaluate blame_def failing_def)
  from stage_error_wrapping [of "load_config (\<lambda>k. None)"
      "rejecting (WaitForNavigation None) ''timeout''" "''''" "''''" initial, THEN conjunct1]
    m b
  show ?thesis by (simp add: signalled_def)
qed

text \<open>
  Claim C7. The calls \<open>login\<close> issues are, in this order: go to the base URL followed by
  \<open>/login\<close>, fill the username field, press Enter in it, fill the password field, press
  Enter in it, wait for the navigation. In every world they are an initial segment of
  this list, and when none of them fails the whole list is issued and \<open>login\<close> returns.
  The username and the password are passed as they are, for every string, the empty
  one included.
\<close>

theorem login_sequence:
  \<open>prefix (calls (events_of (login cfg w username password) st))
     [Goto (CAMUNDA_URL cfg @ ''/login''),
      Fill ''input[name="username"]'' username,
      Press ''input[name="username"]'' ''Enter'',
      Fill ''input[name="password"]'' password,
      Press ''input[name="password"]'' ''Enter'',
      WaitForNavigation None] \<and>
   (blame (events_of (login cfg w username password) st) = None \<longrightarrow>
      outcome_of (login cfg w username password) st = Returned () \<and>
      calls (events_of (login cfg w username password) st) =
        [Goto (CAMUNDA_URL cfg @ ''/login''),
         Fill ''input[name="username"]'' username,
         Press ''input[name="username"]'' ''Enter'',
         Fill ''input[name="password"]'' password,
         Press ''input[name="password"]'' ''Enter'',
         WaitForNavigation None])\<close>
proof -
  have "outcome_of (login cfg w username password) st = Returned ()"
    if "blame (events_of (login cfg w username password) st) = None"
    using attempt_outcome [OF attempt_login [where cfg = cfg and u = username and pw = password and w = w], where st = st] that
    by (simp add: signalled_def)
  with issues_calls [OF issues_login [where cfg = cfg and u = username and pw = password and w = w], where st = st]
  show ?thesis
    by blast
qed

theorem login_sequence_witness:
  \<open>blame (events_of (login (load_config (\<lambda>k. None)) (reporting None) '''' '''') initial) = None \<and>
   outcome_of (login (load_config (\<lambda>k. None)) (reporting None) '''' '''') initial = Returned () \<and>
   calls (events_of (login (load_config (\<lambda>k. None)) (reporting None) '''' '''') initial) =
     [Goto ''/login'',
      Fill ''input[name="username"]'' '''',
      Press ''input[name="username"]'' ''Enter'',
      Fill ''input[name="password"]'' '''',
      Press ''input[name="password"]'' ''Enter'',
      WaitForNavigation None]\<close>
proof -
  have b: "blame (events_of (login (load_config (\<lambda>k. None)) (reporting None) '''' '''') initial)
      = None"
    by (simp add: evaluate blame_def failing_def)
  have c: "CAMUNDA_URL (load_config (\<lambda>k. None)) = ''''"
    by (simp add: load_config_def or_default_def)
  from login_sequence [of "load_config (\<lambda>k. None)" "reporting None" "''''" "''''" initial] b c
  show ?thesis by simp
qed

text \<open>
  Claim C3. When the text content read from the status cell is a string \<open>s\<close>,
  \<open>verifyCompletion\<close> returns normally and logs exactly one line, the last event of the
  stage: the success line when \<open>s\<close> equals \<open>Completed\<close> character for character, the
  non-completion line for any other string. The two lines differ, and the outcome is
  \<open>Returned\<close> either way.
\<close>

theorem verify_classifies_status:
  "completed_line n \<noteq> not_completed_line n \<and>
   (Call (TextContent (completionStatusCellSelector n)) (Resolves (Some s))
      \<in> set (events_of (verifyCompletion w n) st) \<longrightarrow>
    outcome_of (verifyCompletion w n) st = Returned () \<and>
    console_logs (events_of (verifyCompletion w n) st) =
      [if s = ''Completed'' then completed_line n else not_completed_line n] \<and>
    last (events_of (verifyCompletion w n) st) =
      ConsoleLog (if s = ''Completed'' then completed_line n else not_completed_line n))"
  using verify_status [of n "Some s" w st] lines_differ [of n] by simp

theorem verify_classifies_status_witness:
  "console_logs (events_of (verifyCompletion (reporting (Some ''Completed'')) ''P'') initial) =
     [completed_line ''P''] \<and>
   console_logs (events_of (verifyCompletion (reporting (Some ''completed'')) ''P'') initial) =
     [not_completed_line ''P''] \<and>
   console_logs (events_of (verifyCompletion (reporting (Some ''Running'')) ''P'') initial) =
     [not_completed_line ''P''] \<and>
   console_logs (events_of (verifyCompletion (reporting (Some ''Incomplete'')) ''P'') initial) =
     [not_completed_line ''P''] \<and>
   console_logs (events_of (verifyCompletion (reporting (Some '''')) ''P'') initial) =
     [not_completed_line ''P''] \<and>
   outcome_of (verifyCompletion (reporting (Some ''Completed'')) ''P'') initial = Returned () \<and>
   outcome_of (verifyCompletion (reporting (Some ''completed'')) ''P'') initial = Returned ()"
proof -
  have m: "Call (TextContent (completionStatusCellSelector ''P'')) (Resolves (Some s))
      \<in> set (events_of (verifyCompletion (reporting (Some s)) ''P'') initial)" for s
    by (simp add: evaluate)
  from verify_classifies_status [of "''P''" "''Completed''" "reporting (Some ''Completed'')" initial]
    verify_classifies_status [of "''P''" "''completed''" "reporting (Some ''completed'')" initial]
    verify_classifies_status [of "''P''" "''Running''" "reporting (Some ''Running'')" initial]
    verify_classifies_status [of "''P''" "''Incomplete''" "reporting (Some ''Incomplete'')" initial]
    verify_classifies_status [of "''P''" "''''" "reporting (Some '''')" initial]
    m
  show ?thesis by simp
qed

text \<open>
  Claim C9. When reading the status cell's text content resolves with \<open>null\<close>, the
  comparison does not throw: \<open>verifyCompletion\<close> logs the non-completion line and
  returns normally.
\<close>

theorem verify_null_status:
  "Call (TextContent (completionStatusCellSelector n)) (Resolves None)
      \<in> set (events_of (verifyCompletion w n) st) \<longrightarrow>
    outcome_of (verifyCompletion w n) st = Returned () \<and>
    console_logs (events_of (verifyCompletion w n) st) = [not_completed_line n] \<and>
    last (events_of (verifyCompletion w n) st) = ConsoleLog (not_completed_line n)"
  using verify_status [of n None w st] by simp

theorem verify_null_status_witness:
  "Call (TextContent (completionStatusCellSelector ''P'')) (Resolves None)
      \<in> set (events_of (verifyCompletion (reporting None) ''P'') initial) \<and>
   outcome_of (verifyCompletion (reporting None) ''P'') initial = Returned () \<and>
   console_logs (events_of (verifyCompletion (reporting None) ''P'') initial) =
     [not_completed_line ''P'']"
proof -
  have m: "Call (TextContent (completionStatusCellSelector ''P'')) (Resolves None)
      \<in> set (events_of (verifyCompletion (reporting None) ''P'') initial)"
    by (simp add: evaluate)
  with verify_null_status [of "''P''" "reporting None" initial] show ?thesis by simp
qed

text \<open>
  Claim C6. In every run, every \<open>waitForSelector\<close> the script issues carries a timeout of
  5000 exactly when its selector is \<open>input#rest-url\<close> and no timeout otherwise, and every
  \<open>waitForNavigation\<close> carries none. The bounded wait is the fifth call of
  \<open>createProcess\<close>. Against a browser that enforces the bounds it is given
  (\<open>enforces_bounds\<close>: a wait with bound \<open>t\<close> resolves when the element appears within
  \<open>t\<close> and rejects otherwise), that wait never hangs; and when the element does not
  appear within 5000 (never, or later), \<open>createProcess\<close> stops at the wait and throws
  \<open>Process creation failed:\<close> with the browser's message. The other waits are outside
  that guarantee, since they pass no bound: the witness runs a browser that enforces
  bounds and in which \<open>navigateToModeler\<close> is pending for ever at its wait.
\<close>

theorem bounded_wait_only_in_createProcess:
  \<open>(\<forall>s t. WaitForSelector s t \<in> set (calls (events_of (run cfg w) initial)) \<longrightarrow>
      t = (if s = ''input#rest-url'' then Some 5000 else None)) \<and>
   (\<forall>t. WaitForNavigation t \<in> set (calls (events_of (run cfg w) initial)) \<longrightarrow> t = None) \<and>
   prefix (calls (events_of (createProcess w n u) st))
     [Click ''button >> text=Create process'',
      Fill ''input#process-name'' n,
      Click ''button >> text=Create'',
      Click ''button >> text=Add Connector'',
      WaitForSelector ''input#rest-url'' (Some 5000),
      HandleFill ''input#rest-url'' u,
      Click ''button >> text=Save Connector'',
      Click ''button >> text=Save''] \<and>
   (\<forall>m. Call (WaitForSelector ''input#rest-url'' (Some 5000)) (Rejects m)
          \<in> set (events_of (createProcess w n u) st) \<longrightarrow>
      outcome_of (createProcess w n u) st = Thrown (''Process creation failed: '' @ m) \<and>
      last (events_of (createProcess w n u) st) =
        Call (WaitForSelector ''input#rest-url'' (Some 5000)) (Rejects m)) \<and>
   (enforces_bounds page w \<longrightarrow>
      Call (WaitForSelector ''input#rest-url'' (Some 5000)) Hangs
        \<notin> set (events_of (createProcess w n u) st)) \<and>
   (enforces_bounds page w \<and> absent_within page ''input#rest-url'' 5000 \<and>
    WaitForSelector ''input#rest-url'' (Some 5000)
      \<in> set (calls (events_of (createProcess w n u) st)) \<longrightarrow>
      (\<exists>m. outcome_of (createProcess w n u) st = Thrown (''Process creation failed: '' @ m) \<and>
         last (events_of (createProcess w n u) st) =
           Call (WaitForSelector ''input#rest-url'' (Some 5000)) (Rejects m)))\<close>
proof -
  have ok: "wait_bound_ok p" if "p \<in> set (calls (events_of (run cfg w) initial))" for p
    using run_waits [of cfg w] that by (simp add: list_all_iff)
  have a: "t = (if s = ''input#rest-url'' then Some 5000 else None)"
    if "WaitForSelector s t \<in> set (calls (events_of (run cfg w) initial))" for s t
    using ok [OF that] by (simp add: wait_bound_ok_def)
  have b: "t = None"
    if "WaitForNavigation t \<in> set (calls (events_of (run cfg w) initial))" for t
    using ok [OF that] by (simp add: wait_bound_ok_def)
  note c = issues_calls(1) [OF issues_createProcess [where w = w and n = n and u = u], where st = st]
  note d = attempt_rejected [OF attempt_createProcess [where w = w and n = n and u = u], where st = st]
  note e = createProcess_wait_settles [where page = page and w = w and n = n and u = u and st = st]
  note f = createProcess_wait_times_out [where page = page and w = w and n = n and u = u and st = st]
  from a b c d e f show ?thesis by blast
qed

theorem bounded_wait_only_in_createProcess_witness:
  \<open>enforces_bounds (\<lambda>tr sel. None) (playwright (\<lambda>tr sel. None)) \<and>
   absent_within (\<lambda>tr sel. None) ''input#rest-url'' 5000 \<and>
   WaitForSelector ''input#rest-url'' (Some 5000) \<in> set (calls (events_of
     (createProcess (playwright (\<lambda>tr sel. None)) ''Test Process''
        ''https://api.example.com/data'') initial)) \<and>
   outcome_of (createProcess (playwright (\<lambda>tr sel. None)) ''Test Process''
       ''https://api.example.com/data'') initial =
     Thrown ''Process creation failed: Timeout exceeded'' \<and>
   last (events_of (createProcess (playwright (\<lambda>tr sel. None)) ''Test Process''
       ''https://api.example.com/data'') initial) =
     Call (WaitForSelector ''input#rest-url'' (Some 5000)) (Rejects ''Timeout exceeded'') \<and>
   outcome_of (navigateToModeler (load_config (\<lambda>k. None)) (playwright (\<lambda>tr sel. None)))
     initial = Pending \<and>
   last (events_of (navigateToModeler (load_config (\<lambda>k. None))
       (playwright (\<lambda>tr sel. None))) initial) =
     Call (WaitForSelector ''button >> text=Create process'' None) Hangs \<and>
   WaitForSelector ''input#rest-url'' (Some 5000) \<in> set (calls (events_of
       (run (load_config (\<lambda>k. None)) (reporting (Some ''Completed''))) initial)) \<and>
   WaitForSelector ''a#operate-link'' None \<in> set (calls (events_of
       (run (load_config (\<lambda>k. None)) (reporting (Some ''Completed''))) initial)) \<and>
   WaitForNavigation None \<in> set (calls (events_of
       (run (load_config (\<lambda>k. None)) (reporting (Some ''Completed''))) initial))\<close>
proof -
  let ?w = "playwright (\<lambda>tr sel. None)"
  define a where "a = events_of (createProcess ?w ''Test Process''
      ''https://api.example.com/data'') initial"
  have h1: "enforces_bounds (\<lambda>tr sel. None) ?w"
    by (rule playwright_enforces)
  have h2: "absent_within (\<lambda>tr sel. None) ''input#rest-url'' 5000"
    by (simp add: absent_within_def)
  have a: "WaitForSelector ''input#rest-url'' (Some 5000) \<in> set (calls a)"
    "last a = Call (WaitForSelector ''input#rest-url'' (Some 5000)) (Rejects ''Timeout exceeded'')"
    unfolding a_def by (simp_all add: evaluate observe playwright_def)
  have n: "outcome_of (navigateToModeler (load_config (\<lambda>k. None)) ?w) initial = Pending"
    "last (events_of (navigateToModeler (load_config (\<lambda>k. None)) ?w) initial) =
       Call (WaitForSelector ''button >> text=Create process'' None) Hangs"
    by (simp_all add: evaluate playwright_def)
  have ws: "WaitForSelector ''input#rest-url'' (Some 5000) \<in> set (calls (events_of
       (run (load_config (\<lambda>k. None)) (reporting (Some ''Completed''))) initial))"
    "WaitForSelector ''a#operate-link'' None \<in> set (calls (events_of
       (run (load_config (\<lambda>k. None)) (reporting (Some ''Completed''))) initial))"
    "WaitForNavigation None \<in> set (calls (events_of
       (run (load_config (\<lambda>k. None)) (reporting (Some ''Completed''))) initial))"
    by (simp_all add: evaluate observe)
  from bounded_wait_only_in_createProcess [of "load_config (\<lambda>k. None)" ?w
      "''Test Process''" "''https://api.example.com/data''" initial "\<lambda>tr sel. None",
      folded a_def] h1 h2 a
  have "outcome_of (createProcess ?w ''Test Process'' ''https://api.example.com/data'') initial =
      Thrown ''Process creation failed: Timeout exceeded''"
    by auto
  with h1 h2 a n ws show ?thesis
    unfolding a_def [symmetric] by simp
qed

text \<open>
  Claim C1. In every run of \<open>run\<close>: the stages entered are an initial segment of
  bootstrap, login, navigateToModeler, createProcess, runProcessInstance,
  verifyCompletion, starting with bootstrap, and all six when the run settles and no
  stage threw; at most one stage throws, and it is the last one entered; when the run
  settles, \<open>browser.close\<close> has been called once if the launch resolved and not at all
  otherwise, and it is never called twice; a call of \<open>browser.close\<close> is the last event of
  the run, after every stage that was entered has been left.
\<close>

theorem run_sequencing_and_release:
  fixes cfg :: config and w :: world
  defines "r \<equiv> outcome_of (run cfg w) initial"
    and "tr \<equiv> events_of (run cfg w) initial"
  shows "prefix (stages_entered tr) all_stages \<and>
    stages_entered tr \<noteq> [] \<and> hd (stages_entered tr) = Bootstrap \<and>
    (r \<noteq> Pending \<and> failures tr = [] \<longrightarrow> stages_entered tr = all_stages) \<and>
    (\<forall>s e. (s, e) \<in> set (failures tr) \<longrightarrow>
       failures tr = [(s, e)] \<and> last (stages_entered tr) = s) \<and>
    (r \<noteq> Pending \<longrightarrow> count_list (calls tr) Close = (if launched tr then 1 else 0)) \<and>
    count_list (calls tr) Close \<le> 1 \<and>
    (Close \<in> set (calls tr) \<longrightarrow>
       (\<exists>rep. last tr = Call Close rep) \<and> stages_left tr = stages_entered tr)"
proof (cases rule: run_shape' [of cfg w])
  case (hung body)
  note b = body_facts [OF hung(1)]
  from hung b all_stages_first show ?thesis
    unfolding r_def tr_def by (simp add: count_absent)
next
  case (unlaunched r0 body)
  note b = body_facts [OF unlaunched(1)]
  from unlaunched b all_stages_first show ?thesis
    unfolding r_def tr_def
    by (cases r0) (simp_all add: observe diagnostic_observe count_absent)
next
  case (released r0 body rep)
  note b = body_facts [OF released(1)]
  from released b all_stages_first show ?thesis
    unfolding r_def tr_def
    by (cases r0) (simp_all add: observe diagnostic_observe count_absent close_not_launch)
qed

theorem run_sequencing_and_release_witness:
  "stages_entered (events_of (run (load_config (\<lambda>k. None))
       (rejecting (Click ''button >> text=Create'') ''timeout'')) initial) =
     [Bootstrap, Login, NavigateToModeler, CreateProcess] \<and>
   (CreateProcess, ''Process creation failed: timeout'') \<in> set (failures (events_of
       (run (load_config (\<lambda>k. None))
         (rejecting (Click ''button >> text=Create'') ''timeout'')) initial)) \<and>
   outcome_of (run (load_config (\<lambda>k. None))
       (rejecting (Click ''button >> text=Create'') ''timeout'')) initial = Returned () \<and>
   launched (events_of (run (load_config (\<lambda>k. None))
       (rejecting (Click ''button >> text=Create'') ''timeout'')) initial) \<and>
   count_list (calls (events_of (run (load_config (\<lambda>k. None))
       (rejecting (Click ''button >> text=Create'') ''timeout'')) initial)) Close = 1 \<and>
   stages_left (events_of (run (load_config (\<lambda>k. None))
       (rejecting (Click ''button >> text=Create'') ''timeout'')) initial) =
     [Bootstrap, Login, NavigateToModeler, CreateProcess] \<and>
   failures (events_of (run (load_config (\<lambda>k. None)) (reporting (Some ''Completed'')))
       initial) = [] \<and>
   stages_entered (events_of (run (load_config (\<lambda>k. None)) (reporting (Some ''Completed'')))
       initial) = all_stages \<and>
   count_list (calls (events_of (run (load_config (\<lambda>k. None))
       (reporting (Some ''Completed''))) initial)) Close = 1 \<and>
   \<not> launched (events_of (run (load_config (\<lambda>k. None))
       (rejecting (Launch False) ''no browser'')) initial) \<and>
   count_list (calls (events_of (run (load_config (\<lambda>k. None))
       (rejecting (Launch False) ''no browser'')) initial)) Close = 0"
proof -
  define a where "a = events_of (run (load_config (\<lambda>k. None))
       (rejecting (Click ''button >> text=Create'') ''timeout'')) initial"
  define b where "b = events_of (run (load_config (\<lambda>k. None))
       (reporting (Some ''Completed''))) initial"
  define c where "c = events_of (run (load_config (\<lambda>k. None))
       (rejecting (Launch False) ''no browser'')) initial"
  have a: "stages_entered a = [Bootstrap, Login, NavigateToModeler, CreateProcess]"
    "failures a = [(CreateProcess, ''Process creation failed: timeout'')]"
    "launched a" "Close \<in> set (calls a)"
    unfolding a_def by (simp_all add: evaluate observe launch_resolved_def)
  have ra: "outcome_of (run (load_config (\<lambda>k. None))
       (rejecting (Click ''button >> text=Create'') ''timeout'')) initial = Returned ()"
    by (simp add: evaluate)
  have b: "failures b = []" "launched b"
    unfolding b_def by (simp_all add: evaluate observe launch_resolved_def)
  have rb: "outcome_of (run (load_config (\<lambda>k. None))
       (reporting (Some ''Completed''))) initial = Returned ()"
    by (simp add: evaluate)
  have c: "\<not> launched c"
    unfolding c_def by (simp add: evaluate observe launch_resolved_def)
  have rc: "outcome_of (run (load_config (\<lambda>k. None))
       (rejecting (Launch False) ''no browser'')) initial = Returned ()"
    by (simp add: evaluate)
  from run_sequencing_and_release [of "load_config (\<lambda>k. None)"
      "rejecting (Click ''button >> text=Create'') ''timeout''", folded a_def]
    run_sequencing_and_release [of "load_config (\<lambda>k. None)"
      "reporting (Some ''Completed'')", folded b_def]
    run_sequencing_and_release [of "load_config (\<lambda>k. None)"
      "rejecting (Launch False) ''no browser''", folded c_def]
    a b c ra rb rc
  show ?thesis
    unfolding a_def [symmetric] b_def [symmetric] c_def [symmetric] by simp
qed

text \<open>
  Claim C5, as amended. When a stage throws an error with message \<open>e\<close>, \<open>run\<close> writes
  exactly one diagnostic, \<open>An error occurred:\<close> with \<open>e\<close>; after the failed stage
  nothing follows in the run but that diagnostic and, when the browser was launched,
  its release, so nothing is rolled back; the stage's error is not thrown again; no
  stage is entered twice and none after the one that failed. When the release resolves
  or no browser was launched, \<open>run\<close> returns normally and the process exits with status
  0. When the release itself rejects, its error leaves \<open>run\<close> and, nothing handling
  it, the process exits with status 1: the exit status stays zero only as long as
  \<open>browser.close\<close> does not fail.
\<close>

theorem run_reports_failure:
  fixes cfg :: config and w :: world
  defines "r \<equiv> outcome_of (run cfg w) initial"
    and "tr \<equiv> events_of (run cfg w) initial"
  assumes failed: "(s, e) \<in> set (failures tr)"
  shows "console_errors tr = [[''An error occurred:'', e]] \<and>
    (\<exists>pre post. tr = pre @ Leave s (Some e) # ConsoleError [''An error occurred:'', e] # post \<and>
       (post = [] \<or> (\<exists>rep. post = [Call Close rep]))) \<and>
    (\<forall>m. r = Thrown m \<longrightarrow> last tr = Call Close (Rejects m)) \<and>
    (\<not> launched tr \<or> (\<exists>v. last tr = Call Close (Resolves v)) \<longrightarrow>
       r = Returned () \<and> exit_status r = Some 0) \<and>
    (\<forall>m. last tr = Call Close (Rejects m) \<longrightarrow> r = Thrown m \<and> exit_status r = Some 1) \<and>
    (launched tr \<longrightarrow> (\<exists>rep. last tr = Call Close rep)) \<and>
    distinct (stages_entered tr) \<and> last (stages_entered tr) = s"
proof (cases rule: run_shape' [of cfg w])
  case (hung body)
  note b = body_facts [OF hung(1)]
  from hung b failed show ?thesis
    unfolding r_def tr_def by simp
next
  case (unlaunched r0 body)
  note b = body_facts [OF unlaunched(1)]
  from unlaunched b failed have r0: "r0 = Thrown e" and s: "s = last (stages_entered body)"
    unfolding tr_def by (cases r0; simp add: observe diagnostic_observe)+
  from body_thrown_last [OF unlaunched(1) r0] s obtain pre where
    pre: "body = pre @ [Leave s (Some e)]" by blast
  have d: "distinct (stages_entered body)"
    by (rule entered_distinct [OF b(1)])
  have shape: "\<exists>pre post. body @ diagnostic r0 =
        pre @ Leave s (Some e) # ConsoleError [''An error occurred:'', e] # post \<and>
       (post = [] \<or> (\<exists>rep. post = [Call Close rep]))"
    using pre r0 by (intro exI [of _ pre] exI [of _ "[]"]) (simp add: diagnostic_def)
  have l: "last (body @ diagnostic r0) = ConsoleError [''An error occurred:'', e]"
    using r0 by (simp add: diagnostic_def)
  from unlaunched b r0 s d shape l show ?thesis
    unfolding r_def tr_def
    by (simp add: observe diagnostic_observe exit_status_def)
next
  case (released r0 body rep)
  note b = body_facts [OF released(1)]
  from released b failed have r0: "r0 = Thrown e" and s: "s = last (stages_entered body)"
    unfolding tr_def by (cases r0; simp add: observe diagnostic_observe)+
  from body_thrown_last [OF released(1) r0] s obtain pre where
    pre: "body = pre @ [Leave s (Some e)]" by blast
  have d: "distinct (stages_entered body)"
    by (rule entered_distinct [OF b(1)])
  have shape: "\<exists>pre post. body @ diagnostic r0 @ [Call Close rep] =
        pre @ Leave s (Some e) # ConsoleError [''An error occurred:'', e] # post \<and>
       (post = [] \<or> (\<exists>rep. post = [Call Close rep]))"
    using pre r0 by (intro exI [of _ pre] exI [of _ "[Call Close rep]"]) (simp add: diagnostic_def)
  from released b r0 s d shape show ?thesis
    unfolding r_def tr_def
    by (cases rep)
       (simp_all add: observe diagnostic_observe release_outcome_def close_not_launch
          exit_status_def)
qed

theorem run_reports_failure_witness:
  "(Login, ''Login failed: net::ERR_CONNECTION_REFUSED'') \<in> set (failures (events_of
       (run (load_config (\<lambda>k. None))
         (rejecting (Goto ''/login'') ''net::ERR_CONNECTION_REFUSED'')) initial)) \<and>
   console_errors (events_of (run (load_config (\<lambda>k. None))
       (rejecting (Goto ''/login'') ''net::ERR_CONNECTION_REFUSED'')) initial) =
     [[''An error occurred:'', ''Login failed: net::ERR_CONNECTION_REFUSED'']] \<and>
   last (events_of (run (load_config (\<lambda>k. None))
       (rejecting (Goto ''/login'') ''net::ERR_CONNECTION_REFUSED'')) initial) =
     Call Close (Resolves None) \<and>
   outcome_of (run (load_config (\<lambda>k. None))
       (rejecting (Goto ''/login'') ''net::ERR_CONNECTION_REFUSED'')) initial = Returned () \<and>
   exit_status (outcome_of (run (load_config (\<lambda>k. None))
       (rejecting (Goto ''/login'') ''net::ERR_CONNECTION_REFUSED'')) initial) = Some 0 \<and>
   stages_entered (events_of (run (load_config (\<lambda>k. None))
       (rejecting (Goto ''/login'') ''net::ERR_CONNECTION_REFUSED'')) initial) =
     [Bootstrap, Login]"
proof -
  define a where "a = events_of (run (load_config (\<lambda>k. None))
       (rejecting (Goto ''/login'') ''net::ERR_CONNECTION_REFUSED'')) initial"
  have f: "(Login, ''Login failed: net::ERR_CONNECTION_REFUSED'') \<in> set (failures a)"
    unfolding a_def by (simp add: evaluate observe)
  have l: "last a = Call Close (Resolves None)"
    "stages_entered a = [Bootstrap, Login]"
    unfolding a_def by (simp_all add: evaluate observe)
  from run_reports_failure [of Login "''Login failed: net::ERR_CONNECTION_REFUSED''"
      "load_config (\<lambda>k. None)" "rejecting (Goto ''/login'') ''net::ERR_CONNECTION_REFUSED''",
      folded a_def, OF f] f l
  show ?thesis
    unfolding a_def [symmetric] by (simp add: exit_status_def)
qed

text \<open>
  The claim as it was stated fails where the release fails too: \<open>login\<close> throws, the
  diagnostic is written, \<open>browser.close\<close> rejects, and \<open>run\<close> ends with that error and
  the process with status 1.
\<close>

theorem run_failure_exit_status_counterexample:
  "failures (events_of (run (load_config (\<lambda>k. None))
       (rejecting_two (Goto ''/login'') ''net::ERR_CONNECTION_REFUSED'' Close ''Target closed''))
       initial) = [(Login, ''Login failed: net::ERR_CONNECTION_REFUSED'')] \<and>
   console_errors (events_of (run (load_config (\<lambda>k. None))
       (rejecting_two (Goto ''/login'') ''net::ERR_CONNECTION_REFUSED'' Close ''Target closed''))
       initial) = [[''An error occurred:'', ''Login failed: net::ERR_CONNECTION_REFUSED'']] \<and>
   outcome_of (run (load_config (\<lambda>k. None))
       (rejecting_two (Goto ''/login'') ''net::ERR_CONNECTION_REFUSED'' Close ''Target closed''))
       initial = Thrown ''Target closed'' \<and>
   exit_status (outcome_of (run (load_config (\<lambda>k. None))
       (rejecting_two (Goto ''/login'') ''net::ERR_CONNECTION_REFUSED'' Close ''Target closed''))
       initial) = Some 1"
  by (simp add: evaluate observe rejecting_two_def exit_status_def)

text \<open>
  Claim C10. The release is not protected: when \<open>browser.close\<close> rejects with message
  \<open>m\<close> in the \<open>finally\<close> block, \<open>run\<close> throws \<open>m\<close>.
\<close>

theorem release_failure_propagates:
  assumes "Call Close (Rejects m) \<in> set (events_of (run cfg w) initial)"
  shows "outcome_of (run cfg w) initial = Thrown m"
proof -
  have no_close: "Call Close rep \<notin> set evs" if "Close \<notin> set (calls evs)" for rep evs
    using that call_in_calls by blast
  have no_call: "Call p rep \<notin> set (diagnostic r0)" for p rep r0
    by (cases r0) (simp_all add: diagnostic_def)
  show ?thesis
  proof (cases rule: run_shape' [of cfg w])
    case (hung body)
    with assms no_close [OF body_quiet(2) [OF hung(1)]] show ?thesis by simp
  next
    case (unlaunched r0 body)
    with assms no_close [OF body_quiet(2) [OF unlaunched(1)]] no_call show ?thesis by simp
  next
    case (released r0 body rep)
    with assms no_close [OF body_quiet(2) [OF released(1)]] no_call show ?thesis
      by (auto simp: release_outcome_def)
  qed
qed

theorem release_failure_propagates_witness:
  "Call Close (Rejects ''Target closed'') \<in> set (events_of
       (run (load_config (\<lambda>k. None)) (rejecting Close ''Target closed'')) initial) \<and>
   outcome_of (run (load_config (\<lambda>k. None)) (rejecting Close ''Target closed'')) initial =
     Thrown ''Target closed''"
proof -
  have m: "Call Close (Rejects ''Target closed'') \<in> set (events_of
       (run (load_config (\<lambda>k. None)) (rejecting Close ''Target closed'')) initial)"
    by (simp add: evaluate)
  from release_failure_propagates [OF m] m show ?thesis by simp
qed

end
